theory Spec2Isabelle
  imports Main
begin

section \<open>Cards\<close>

text \<open>
  A Go \<^verbatim>\<open>string\<close> is a sequence of bytes; it is modelled as a \<^typ>\<open>string\<close> (a list of
  8-bit characters), one character for each byte.

  \<^verbatim>\<open>strings.ToLower\<close> is a function of Go's library. It reads its argument as UTF-8 and
  lower-cases every Unicode letter; on a string of ASCII bytes it lower-cases the letters
  A to Z and leaves every other byte. \<open>toLower\<close> is the lower-casing of the letters A to
  Z, that is \<^verbatim>\<open>strings.ToLower\<close> on the strings of ASCII bytes; it is not the library
  function on other strings (the library turns the three bytes of the Kelvin sign U+212A
  into the letter k, for one). The model uses it as follows.

  \<^item> \<^verbatim>\<open>getCardValue\<close> lower-cases \<^verbatim>\<open>string(card[0])\<close>, the string of one byte. Of a byte
    below 0x80 that is the byte itself, lower-cased by \<open>toLowerChar\<close>. Of a byte from 0x80
    on, it is the two bytes that encode the code point of that number in UTF-8, and its
    lower-casing is two such bytes again: it equals no case of the switch, just as the byte
    that \<open>toLowerChar\<close> leaves equals none.
  \<^item> \<^verbatim>\<open>formatCard\<close> compares the lower-cased suit character with four ASCII letters and
    otherwise keeps the character as it was.
  \<^item> \<^verbatim>\<open>checkDeck\<close> lower-cases whole cards of any bytes. There the lower-casing is an
    argument of the model, so that what is proved of it holds for the library function.

  A Go run-time panic (an index out of range) is the error value of a sum type.
\<close>

datatype error = IndexOutOfRange

definition toLowerChar :: "char \<Rightarrow> char" where
  "toLowerChar c =
     (case map_of (zip ''ABCDEFGHIJKLMNOPQRSTUVWXYZ'' ''abcdefghijklmnopqrstuvwxyz'') c of
        Some l \<Rightarrow> l
      | None \<Rightarrow> c)"

definition toLower :: "string \<Rightarrow> string" where
  "toLower s = map toLowerChar s"

text \<open>\<^verbatim>\<open>strings.HasPrefix(s, prefix)\<close>.\<close>

definition hasPrefix :: "string \<Rightarrow> string \<Rightarrow> bool" where
  "hasPrefix s pre = (take (length pre) s = pre)"

text \<open>
  \<^verbatim>\<open>getCardValue\<close>: the test for the prefix "10" comes first; then \<^verbatim>\<open>card[0]\<close> is read,
  which panics on the empty string; then the switch on the lower-cased first character.
\<close>

definition getCardValue :: "string \<Rightarrow> error + int" where
  "getCardValue crd =
     (if hasPrefix crd ''10'' then Inr 10
      else case crd of
        [] \<Rightarrow> Inl IndexOutOfRange
      | c0 # _ \<Rightarrow>
          (let rank = toLowerChar c0 in
           if rank = CHR ''a'' then Inr 1
           else if rank = CHR ''2'' then Inr 2
           else if rank = CHR ''3'' then Inr 3
           else if rank = CHR ''4'' then Inr 4
           else if rank = CHR ''5'' then Inr 5
           else if rank = CHR ''6'' then Inr 6
           else if rank = CHR ''7'' then Inr 7
           else if rank = CHR ''8'' then Inr 8
           else if rank = CHR ''9'' then Inr 9
           else if rank = CHR ''j'' then Inr 11
           else if rank = CHR ''q'' then Inr 12
           else if rank = CHR ''k'' then Inr 13
           else Inr 0))"

text \<open>
  \<^verbatim>\<open>string(b)\<close> of a byte \<open>b\<close> is the UTF-8 encoding of the code point of that number:
  the byte itself below 0x80, and two bytes from 0x80 on. \<open>lowerByteString\<close> is
  \<^verbatim>\<open>strings.ToLower(string(b))\<close>: among the code points from 0x80 to 0xFF the upper-case
  letters are 0xC0 to 0xD6 and 0xD8 to 0xDE, each 32 below its lower-case letter.
\<close>

definition byteString :: "char \<Rightarrow> string" where
  "byteString b =
     (let n = (of_char b :: nat) in
      if n < 128 then [b] else [char_of (192 + n div 64), char_of (128 + n mod 64)])"

definition lowerByteString :: "char \<Rightarrow> string" where
  "lowerByteString b =
     (let n = (of_char b :: nat) in
      if n < 128 then [toLowerChar b]
      else if (192 \<le> n \<and> n \<le> 214) \<or> (216 \<le> n \<and> n \<le> 222) then byteString (char_of (n + 32))
      else byteString b)"

text \<open>
  \<^verbatim>\<open>formatCard\<close>: the display name of a card, used in the move log only. The suit
  character of a card that starts with "10" is its third byte, if there is one; of any
  other card it is the last byte. The lower-cased suit character is compared with the
  four suit letters only: a suit character of two bytes equals none of them, lower-cased
  or not, and the default keeps it as it was.
\<close>

definition rankName :: "string \<Rightarrow> string" where
  "rankName rank =
     (if rank = ''a'' then ''Ace''
      else if rank = ''j'' then ''Jack''
      else if rank = ''q'' then ''Queen''
      else if rank = ''k'' then ''King''
      else rank)"

definition suitName :: "string \<Rightarrow> string" where
  "suitName suitChar =
     (let s = toLower suitChar in
      if s = ''c'' then ''Clubs''
      else if s = ''d'' then ''Diamonds''
      else if s = ''h'' then ''Hearts''
      else if s = ''s'' then ''Spades''
      else suitChar)"

definition formatCard :: "string \<Rightarrow> string" where
  "formatCard crd =
     (if crd = [] \<or> crd = ''XX'' then ''Empty''
      else
        let (rank, suitChar) =
          (if hasPrefix crd ''10''
           then (''10'', if length crd > 2 then byteString (crd ! 2) else [])
           else (lowerByteString (hd crd), byteString (last crd)))
        in rankName rank @ '' of '' @ suitName suitChar)"

section \<open>Deck validation\<close>

text \<open>
  \<^verbatim>\<open>checkDeck\<close> returns \<^verbatim>\<open>nil\<close> (\<^const>\<open>None\<close>) or an error; the error carries what the
  message of the source is formatted from. The first argument \<open>lower\<close> stands for
  \<^verbatim>\<open>strings.ToLower\<close>, which the source applies to each card. The model fixes nothing
  about it, so what holds of \<open>checkDeck lower\<close> for every \<open>lower\<close> holds of the check of
  the source; \<open>checkDeck toLower\<close> is that check on the decks of ASCII strings.
\<close>

datatype deckError =
    WrongLength nat
  | MissingCard string
  | DuplicateCard string int

definition ranks :: "string list" where
  "ranks = [''a'', ''2'', ''3'', ''4'', ''5''] @ [''6'', ''7'', ''8'', ''9'', ''10'', ''j'', ''q'', ''k'']"

definition suits :: "string list" where
  "suits = [''c'', ''d'', ''h'', ''s'']"

text \<open>The cards the two nested loops of \<^verbatim>\<open>checkDeck\<close> visit, in their order.\<close>

definition standardDeck :: "string list" where
  "standardDeck = concat (map (\<lambda>rank. map (\<lambda>suit. rank @ suit) suits) ranks)"

text \<open>The first loop: \<^verbatim>\<open>cardCount[strings.ToLower(card)]++\<close> for every card.\<close>

fun countCards ::
    "(string \<Rightarrow> string) \<Rightarrow> string list \<Rightarrow> (string \<rightharpoonup> int) \<Rightarrow> (string \<rightharpoonup> int)" where
  "countCards lower [] cardCount = cardCount"
| "countCards lower (crd # cards) cardCount =
     (let cLower = lower crd
      in countCards lower cards
           (cardCount(cLower \<mapsto> (case cardCount cLower of None \<Rightarrow> 0 | Some n \<Rightarrow> n) + 1)))"

text \<open>The second loop stops at the first card that is missing or counted more than once.\<close>

fun checkCards :: "(string \<rightharpoonup> int) \<Rightarrow> string list \<Rightarrow> deckError option" where
  "checkCards cardCount [] = None"
| "checkCards cardCount (crd # rest) =
     (case cardCount crd of
        None \<Rightarrow> Some (MissingCard crd)
      | Some count \<Rightarrow>
          if count > 1 then Some (DuplicateCard crd count)
          else checkCards cardCount rest)"

definition checkDeck :: "(string \<Rightarrow> string) \<Rightarrow> string list \<Rightarrow> deckError option" where
  "checkDeck lower cards =
     (if length cards \<noteq> 52 then Some (WrongLength (length cards))
      else checkCards (countCards lower cards Map.empty) standardDeck)"

text \<open>
  The rank values of the data model (Ace 1, the numeric ranks 2 to 10, Jack 11, Queen 12,
  King 13), as a table over \<^const>\<open>ranks\<close>, and the well-formed card tokens: a rank
  followed by a suit, in either case.
\<close>

definition rankValue :: "string \<Rightarrow> int" where
  "rankValue rank = (case map_of (zip ranks [1, 2, 3, 4, 5, 6, 7, 8, 9, 10, 11, 12, 13]) rank of
        Some n \<Rightarrow> n
      | None \<Rightarrow> 0)"

definition wellFormedCard :: "string \<Rightarrow> bool" where
  "wellFormedCard crd = (toLower crd \<in> set standardDeck)"

section \<open>The game state\<close>

text \<open>
  The pyramid is a slice of rows of strings; a removed card is the empty string. The
  fields of \<^verbatim>\<open>ExposedCard\<close> carry the prefix \<open>e\<close>, and the move list of a \<^verbatim>\<open>Result\<close> is
  \<open>ResultMoves\<close>, since a field name is a constant of the theory.

  The source logs a move as the text \<^verbatim>\<open>fmt.Sprintf\<close> builds. The model logs the move
  itself (its kind, cards and coordinates); \<open>showMove\<close> is the text of the source.
\<close>

datatype move =
    RemoveKing string nat nat
  | RemovePair string nat nat string nat nat
  | RemoveWaste string string nat nat
  | DrawKing string
  | DrawCard string
  | Recycle

record ExposedCard =
  erow :: nat
  ecol :: nat
  ecard :: string
  evalue :: int

record GameState =
  Pyramid :: "string list list"
  Deck :: "string list"
  Waste :: "string list"
  Moves :: "move list"

record Result =
  ResultMoves :: "move list"
  RemovedCount :: int

text \<open>The verb \<^verbatim>\<open>%d\<close> on a non-negative integer.\<close>

fun showNat :: "nat \<Rightarrow> string" where
  "showNat n =
     (if n < 10 then [''0123456789'' ! n]
      else showNat (n div 10) @ [''0123456789'' ! (n mod 10)])"

definition showPos :: "nat \<Rightarrow> nat \<Rightarrow> string" where
  "showPos r c = ''('' @ showNat r @ '','' @ showNat c @ '')''"

fun showMove :: "move \<Rightarrow> string" where
  "showMove (RemoveKing crd r c) =
     ''Remove '' @ formatCard crd @ '' from pyramid at '' @ showPos r c"
| "showMove (RemovePair crd1 r1 c1 crd2 r2 c2) =
     ''Remove pair from pyramid: '' @ formatCard crd1 @ '' at '' @ showPos r1 c1
       @ '' and '' @ formatCard crd2 @ '' at '' @ showPos r2 c2"
| "showMove (RemoveWaste topWaste crd r c) =
     ''Remove waste card '' @ formatCard topWaste @ '' and pyramid card ''
       @ formatCard crd @ '' at '' @ showPos r c"
| "showMove (DrawKing drawn) = ''Draw and remove King from deck: '' @ formatCard drawn"
| "showMove (DrawCard drawn) = ''Draw card from deck: '' @ formatCard drawn"
| "showMove Recycle = ''Recycle waste into deck''"

text \<open>
  \<^verbatim>\<open>buildPyramid\<close>: row \<open>r\<close> takes the next \<open>r + 1\<close> cards; reading past the end of the
  cards panics.
\<close>

fun buildRows :: "nat list \<Rightarrow> string list \<Rightarrow> error + string list list" where
  "buildRows [] cards = Inr []"
| "buildRows (n # ns) cards =
     (if length cards < n then Inl IndexOutOfRange
      else case buildRows ns (drop n cards) of
        Inl e \<Rightarrow> Inl e
      | Inr rows \<Rightarrow> Inr (take n cards # rows))"

definition buildPyramid :: "string list \<Rightarrow> error + string list list" where
  "buildPyramid cards = buildRows [1, 2, 3, 4, 5, 6, 7] cards"

text \<open>A read \<^verbatim>\<open>pyramid[r][c]\<close> and the write \<^verbatim>\<open>pyramid[r][c] = ""\<close>, with Go's bounds checks.\<close>

definition slotAt :: "string list list \<Rightarrow> nat \<Rightarrow> nat \<Rightarrow> error + string" where
  "slotAt pyramid r c =
     (if r < length pyramid \<and> c < length (pyramid ! r) then Inr (pyramid ! r ! c)
      else Inl IndexOutOfRange)"

definition clearSlot :: "string list list \<Rightarrow> nat \<Rightarrow> nat \<Rightarrow> error + string list list" where
  "clearSlot pyramid r c =
     (if r < length pyramid \<and> c < length (pyramid ! r)
      then Inr (pyramid[r := (pyramid ! r)[c := []]])
      else Inl IndexOutOfRange)"

text \<open>
  The test of \<^verbatim>\<open>getExposedCards\<close> on the slot \<open>(r, c)\<close>, which the loops have in
  bounds: the card is not removed and it is on the bottom row or both cards beneath it
  are removed. \<^verbatim>\<open>||\<close> and \<^verbatim>\<open>&&\<close> evaluate their right operand only when needed, so
  the reads of row \<open>r + 1\<close> happen in this order and only then.
\<close>

definition isExposed :: "string list list \<Rightarrow> nat \<Rightarrow> nat \<Rightarrow> error + bool" where
  "isExposed pyramid r c =
     (if pyramid ! r ! c = [] then Inr False
      else if r = length pyramid - 1 then Inr True
      else case slotAt pyramid (r + 1) c of
        Inl e \<Rightarrow> Inl e
      | Inr left \<Rightarrow>
          if left \<noteq> [] then Inr False
          else case slotAt pyramid (r + 1) (c + 1) of
            Inl e \<Rightarrow> Inl e
          | Inr right \<Rightarrow> Inr (right = []))"

text \<open>The slots in the order of the two loops: row by row, left to right.\<close>

definition slots :: "string list list \<Rightarrow> (nat \<times> nat) list" where
  "slots pyramid =
     concat (map (\<lambda>r. map (\<lambda>c. (r, c)) [0 ..< length (pyramid ! r)]) [0 ..< length pyramid])"

fun exposedLoop :: "string list list \<Rightarrow> (nat \<times> nat) list \<Rightarrow> error + ExposedCard list" where
  "exposedLoop pyramid [] = Inr []"
| "exposedLoop pyramid ((r, c) # rest) =
     (case isExposed pyramid r c of
        Inl e \<Rightarrow> Inl e
      | Inr False \<Rightarrow> exposedLoop pyramid rest
      | Inr True \<Rightarrow>
          (case getCardValue (pyramid ! r ! c) of
             Inl e \<Rightarrow> Inl e
           | Inr v \<Rightarrow>
               (case exposedLoop pyramid rest of
                  Inl e \<Rightarrow> Inl e
                | Inr exposed \<Rightarrow>
                    Inr (\<lparr>erow = r, ecol = c, ecard = pyramid ! r ! c, evalue = v\<rparr> # exposed))))"

definition getExposedCards :: "string list list \<Rightarrow> error + ExposedCard list" where
  "getExposedCards pyramid = exposedLoop pyramid (slots pyramid)"

definition isPyramidEmpty :: "string list list \<Rightarrow> bool" where
  "isPyramidEmpty pyramid = list_all (\<lambda>row. list_all (\<lambda>crd. crd = []) row) pyramid"

definition countRemoved :: "string list list \<Rightarrow> int" where
  "countRemoved pyramid = int (length (filter (\<lambda>crd. crd = []) (concat pyramid)))"

text \<open>
  \<^verbatim>\<open>serializeState\<close>: a removed card is written "XX", a comma follows every card but the
  last of its row, a semicolon every row but the last; then the deck and the waste,
  each joined by commas (\<^verbatim>\<open>strings.Join\<close>) after a bar. The moves are not read.
\<close>

fun serializeRow :: "string list \<Rightarrow> string" where
  "serializeRow [] = []"
| "serializeRow (crd # rest) =
     (if crd = [] then ''XX'' else crd) @ (if rest \<noteq> [] then '','' else []) @ serializeRow rest"

fun serializeRows :: "string list list \<Rightarrow> string" where
  "serializeRows [] = []"
| "serializeRows (row # rows) =
     serializeRow row @ (if rows \<noteq> [] then '';'' else []) @ serializeRows rows"

fun joinStrings :: "string list \<Rightarrow> string \<Rightarrow> string" where
  "joinStrings [] sep = []"
| "joinStrings [x] sep = x"
| "joinStrings (x # y # ys) sep = x @ sep @ joinStrings (y # ys) sep"

definition serializeState :: "GameState \<Rightarrow> string" where
  "serializeState state =
     serializeRows (Pyramid state) @ ''|'' @ joinStrings (Deck state) '','' @ ''|''
       @ joinStrings (Waste state) '',''"

section \<open>The search\<close>

text \<open>
  \<^verbatim>\<open>sort.Slice\<close> with the order "greater row first". \<^verbatim>\<open>sort.Slice\<close> is not stable in
  general, but Go sorts a slice of at most twelve elements by insertion, which keeps the
  order of the cards of one row, and a pyramid of seven rows never exposes more than
  seven cards. \<^const>\<open>sort_key\<close> is that insertion sort.
\<close>

definition sortExposed :: "ExposedCard list \<Rightarrow> ExposedCard list" where
  "sortExposed exposed = sort_key (\<lambda>e. - int (erow e)) exposed"

text \<open>The pairs \<open>(exposed[i], exposed[j])\<close> with \<open>i < j\<close>, in the order of the two loops.\<close>

fun pairsOf :: "'a list \<Rightarrow> ('a \<times> 'a) list" where
  "pairsOf [] = []"
| "pairsOf (x # xs) = map (Pair x) xs @ pairsOf xs"

text \<open>
  Each block of \<^verbatim>\<open>solveState\<close> makes its child states from a copy of the state
  (\<^verbatim>\<open>cloneState\<close>), so a child depends on the state only. A child is an error when making it
  panics: the run stops when the loop reaches it.
\<close>

definition kingChild :: "GameState \<Rightarrow> ExposedCard \<Rightarrow> error + GameState" where
  "kingChild state exp =
     (case clearSlot (Pyramid state) (erow exp) (ecol exp) of
        Inl e \<Rightarrow> Inl e
      | Inr pyramid \<Rightarrow>
          Inr (state\<lparr>Pyramid := pyramid,
                 Moves := Moves state @ [RemoveKing (ecard exp) (erow exp) (ecol exp)]\<rparr>))"

definition kingChildren :: "GameState \<Rightarrow> ExposedCard list \<Rightarrow> (error + GameState) list" where
  "kingChildren state exposed = map (kingChild state) (filter (\<lambda>exp. evalue exp = 13) exposed)"

definition pairChild :: "GameState \<Rightarrow> ExposedCard \<times> ExposedCard \<Rightarrow> error + GameState" where
  "pairChild state ij =
     (case clearSlot (Pyramid state) (erow (fst ij)) (ecol (fst ij)) of
        Inl e \<Rightarrow> Inl e
      | Inr pyramid1 \<Rightarrow>
          (case clearSlot pyramid1 (erow (snd ij)) (ecol (snd ij)) of
             Inl e \<Rightarrow> Inl e
           | Inr pyramid2 \<Rightarrow>
               Inr (state\<lparr>Pyramid := pyramid2,
                      Moves := Moves state @
                        [RemovePair (ecard (fst ij)) (erow (fst ij)) (ecol (fst ij))
                           (ecard (snd ij)) (erow (snd ij)) (ecol (snd ij))]\<rparr>)))"

definition pairChildren :: "GameState \<Rightarrow> ExposedCard list \<Rightarrow> (error + GameState) list" where
  "pairChildren state exposed =
     map (pairChild state) (filter (\<lambda>ij. evalue (fst ij) + evalue (snd ij) = 13) (pairsOf exposed))"

definition wasteChild :: "GameState \<Rightarrow> string \<Rightarrow> ExposedCard \<Rightarrow> error + GameState" where
  "wasteChild state topWaste exp =
     (case clearSlot (Pyramid state) (erow exp) (ecol exp) of
        Inl e \<Rightarrow> Inl e
      | Inr pyramid \<Rightarrow>
          Inr (state\<lparr>Pyramid := pyramid, Waste := butlast (Waste state),
                 Moves := Moves state @
                   [RemoveWaste topWaste (ecard exp) (erow exp) (ecol exp)]\<rparr>))"

definition wasteChildren :: "GameState \<Rightarrow> ExposedCard list \<Rightarrow> (error + GameState) list" where
  "wasteChildren state exposed =
     (if Waste state = [] then []
      else
        let topWaste = last (Waste state) in
        case getCardValue topWaste of
          Inl e \<Rightarrow> [Inl e]
        | Inr wasteValue \<Rightarrow>
            map (wasteChild state topWaste)
              (filter (\<lambda>exp. wasteValue + evalue exp = 13) exposed))"

definition drawChildren :: "GameState \<Rightarrow> (error + GameState) list" where
  "drawChildren state =
     (case Deck state of
        [] \<Rightarrow> []
      | drawn # deck \<Rightarrow>
          (case getCardValue drawn of
             Inl e \<Rightarrow> [Inl e]
           | Inr v \<Rightarrow>
               if v = 13
               then [Inr (state\<lparr>Deck := deck, Moves := Moves state @ [DrawKing drawn]\<rparr>)]
               else [Inr (state\<lparr>Deck := deck, Waste := Waste state @ [drawn],
                            Moves := Moves state @ [DrawCard drawn]\<rparr>)]))"

definition recycleChildren :: "GameState \<Rightarrow> (error + GameState) list" where
  "recycleChildren state =
     (if Deck state = [] \<and> Waste state \<noteq> []
      then [Inr (state\<lparr>Deck := rev (Waste state), Waste := [],
                   Moves := Moves state @ [Recycle]\<rparr>)]
      else [])"

definition children :: "GameState \<Rightarrow> ExposedCard list \<Rightarrow> (error + GameState) list" where
  "children state exposed =
     kingChildren state exposed @ pairChildren state exposed @ wasteChildren state exposed
       @ drawChildren state @ recycleChildren state"

text \<open>
  \<^verbatim>\<open>solveState\<close>. The visited table is passed in and returned with the result. The
  recursion of the source has no bound of its own, so the model counts the depth of the
  calls that are left: \<^const>\<open>None\<close> is a call that did not return within that depth.
  \<open>explore\<close> is the body shared by the five blocks: recurse on the child, keep the
  better result, return at once when it has removed 28 cards.
\<close>

fun solveState ::
    "nat \<Rightarrow> GameState \<Rightarrow> (string \<rightharpoonup> int) \<Rightarrow> (error + Result \<times> (string \<rightharpoonup> int)) option"
  and explore ::
    "nat \<Rightarrow> (error + GameState) list \<Rightarrow> Result \<Rightarrow> (string \<rightharpoonup> int)
       \<Rightarrow> (error + Result \<times> (string \<rightharpoonup> int)) option"
where
  "solveState 0 state visited = None"
| "solveState (Suc depth) state visited =
     (let curRemoved = countRemoved (Pyramid state);
          bestResult = \<lparr>ResultMoves = Moves state, RemovedCount = curRemoved\<rparr>
      in
        if isPyramidEmpty (Pyramid state) then Some (Inr (bestResult, visited))
        else
          let key = serializeState state in
          if (case visited key of Some val \<Rightarrow> val \<ge> curRemoved | None \<Rightarrow> False)
          then Some (Inr (bestResult, visited))
          else
            (case getExposedCards (Pyramid state) of
               Inl e \<Rightarrow> Some (Inl e)
             | Inr exposed \<Rightarrow>
                 explore depth (children state (sortExposed exposed)) bestResult
                   (visited(key \<mapsto> curRemoved))))"
| "explore depth [] bestResult visited = Some (Inr (bestResult, visited))"
| "explore depth (Inl e # rest) bestResult visited = Some (Inl e)"
| "explore depth (Inr newState # rest) bestResult visited =
     (case solveState depth newState visited of
        None \<Rightarrow> None
      | Some (Inl e) \<Rightarrow> Some (Inl e)
      | Some (Inr (res, visited')) \<Rightarrow>
          (let bestResult' =
             (if RemovedCount res > RemovedCount bestResult then res else bestResult)
           in
             if RemovedCount bestResult' = 28 then Some (Inr (bestResult', visited'))
             else explore depth rest bestResult' visited'))"

definition initialState :: "string list \<Rightarrow> error + GameState" where
  "initialState cards =
     (case buildPyramid cards of
        Inl e \<Rightarrow> Inl e
      | Inr pyramid \<Rightarrow> Inr \<lparr>Pyramid = pyramid, Deck = drop 28 cards, Waste = [], Moves = []\<rparr>)"

definition solvePyramidSolitaire :: "nat \<Rightarrow> string list \<Rightarrow> (error + Result) option" where
  "solvePyramidSolitaire depth cards =
     (case initialState cards of
        Inl e \<Rightarrow> Some (Inl e)
      | Inr state \<Rightarrow>
          (case solveState depth state Map.empty of
             None \<Rightarrow> None
           | Some (Inl e) \<Rightarrow> Some (Inl e)
           | Some (Inr (res, visited)) \<Rightarrow> Some (Inr res)))"

section \<open>The search without the visited table\<close>

text \<open>
  The same search with the memoization check and the write to the table removed, for
  the comparison of the two.
\<close>

fun solveStateNoPrune :: "nat \<Rightarrow> GameState \<Rightarrow> (error + Result) option"
  and exploreNoPrune :: "nat \<Rightarrow> (error + GameState) list \<Rightarrow> Result \<Rightarrow> (error + Result) option"
where
  "solveStateNoPrune 0 state = None"
| "solveStateNoPrune (Suc depth) state =
     (let curRemoved = countRemoved (Pyramid state);
          bestResult = \<lparr>ResultMoves = Moves state, RemovedCount = curRemoved\<rparr>
      in
        if isPyramidEmpty (Pyramid state) then Some (Inr bestResult)
        else
          (case getExposedCards (Pyramid state) of
             Inl e \<Rightarrow> Some (Inl e)
           | Inr exposed \<Rightarrow>
               exploreNoPrune depth (children state (sortExposed exposed)) bestResult))"
| "exploreNoPrune depth [] bestResult = Some (Inr bestResult)"
| "exploreNoPrune depth (Inl e # rest) bestResult = Some (Inl e)"
| "exploreNoPrune depth (Inr newState # rest) bestResult =
     (case solveStateNoPrune depth newState of
        None \<Rightarrow> None
      | Some (Inl e) \<Rightarrow> Some (Inl e)
      | Some (Inr res) \<Rightarrow>
          (let bestResult' =
             (if RemovedCount res > RemovedCount bestResult then res else bestResult)
           in
             if RemovedCount bestResult' = 28 then Some (Inr bestResult')
             else exploreNoPrune depth rest bestResult'))"

definition solveNoPrune :: "nat \<Rightarrow> string list \<Rightarrow> (error + Result) option" where
  "solveNoPrune depth cards =
     (case initialState cards of
        Inl e \<Rightarrow> Some (Inl e)
      | Inr state \<Rightarrow> solveStateNoPrune depth state)"

section \<open>Replaying a move list\<close>

text \<open>
  The moves as the search makes them, for the proofs that follow the search: a move is
  replayed on a state when the tests of the code allow it there. A pyramid card it
  removes is the card in that slot, the slot is in the pyramid and passes the test of
  \<^const>\<open>isExposed\<close>, the values that \<^const>\<open>getCardValue\<close> gives a pair and a waste
  pairing sum to 13, a single removal and a discarded draw have the value 13, a draw
  takes the front of the deck, and a recycle needs an empty deck and a non-empty waste.
  \<^const>\<open>None\<close> is a move that the code would not make. The legal moves in the words of
  the specification are those of \<open>playMove\<close> below.
\<close>

definition removable :: "string list list \<Rightarrow> nat \<Rightarrow> nat \<Rightarrow> string \<Rightarrow> bool" where
  "removable pyramid r c crd =
     (r < length pyramid \<and> c < length (pyramid ! r) \<and> pyramid ! r ! c = crd
      \<and> isExposed pyramid r c = Inr True)"

definition sumsTo13 :: "string \<Rightarrow> string \<Rightarrow> bool" where
  "sumsTo13 crd1 crd2 =
     (case getCardValue crd1 of
        Inl e \<Rightarrow> False
      | Inr v1 \<Rightarrow> (case getCardValue crd2 of Inl e \<Rightarrow> False | Inr v2 \<Rightarrow> v1 + v2 = 13))"

definition cleared :: "string list list \<Rightarrow> nat \<Rightarrow> nat \<Rightarrow> string list list" where
  "cleared pyramid r c = pyramid[r := (pyramid ! r)[c := []]]"

fun replayMove :: "move \<Rightarrow> GameState \<Rightarrow> GameState option" where
  "replayMove (RemoveKing crd r c) state =
     (if removable (Pyramid state) r c crd \<and> getCardValue crd = Inr 13
      then Some (state\<lparr>Pyramid := cleared (Pyramid state) r c,
                   Moves := Moves state @ [RemoveKing crd r c]\<rparr>)
      else None)"
| "replayMove (RemovePair crd1 r1 c1 crd2 r2 c2) state =
     (if removable (Pyramid state) r1 c1 crd1 \<and> removable (Pyramid state) r2 c2 crd2
         \<and> (r1, c1) \<noteq> (r2, c2) \<and> sumsTo13 crd1 crd2
      then Some (state\<lparr>Pyramid := cleared (cleared (Pyramid state) r1 c1) r2 c2,
                   Moves := Moves state @ [RemovePair crd1 r1 c1 crd2 r2 c2]\<rparr>)
      else None)"
| "replayMove (RemoveWaste topWaste crd r c) state =
     (if Waste state \<noteq> [] \<and> last (Waste state) = topWaste
         \<and> removable (Pyramid state) r c crd \<and> sumsTo13 topWaste crd
      then Some (state\<lparr>Pyramid := cleared (Pyramid state) r c, Waste := butlast (Waste state),
                   Moves := Moves state @ [RemoveWaste topWaste crd r c]\<rparr>)
      else None)"
| "replayMove (DrawKing drawn) state =
     (if Deck state \<noteq> [] \<and> hd (Deck state) = drawn \<and> getCardValue drawn = Inr 13
      then Some (state\<lparr>Deck := tl (Deck state), Moves := Moves state @ [DrawKing drawn]\<rparr>)
      else None)"
| "replayMove (DrawCard drawn) state =
     (if Deck state \<noteq> [] \<and> hd (Deck state) = drawn \<and> getCardValue drawn \<noteq> Inr 13
      then Some (state\<lparr>Deck := tl (Deck state), Waste := Waste state @ [drawn],
                   Moves := Moves state @ [DrawCard drawn]\<rparr>)
      else None)"
| "replayMove Recycle state =
     (if Deck state = [] \<and> Waste state \<noteq> []
      then Some (state\<lparr>Deck := rev (Waste state), Waste := [],
                   Moves := Moves state @ [Recycle]\<rparr>)
      else None)"

fun replay :: "move list \<Rightarrow> GameState \<Rightarrow> GameState option" where
  "replay [] state = Some state"
| "replay (m # ms) state =
     (case replayMove m state of None \<Rightarrow> None | Some state' \<Rightarrow> replay ms state')"

text \<open>Drawing \<open>n\<close> cards one after the other, each by the draw block of the search.\<close>

fun drawOut :: "nat \<Rightarrow> GameState \<Rightarrow> GameState option" where
  "drawOut 0 state = Some state"
| "drawOut (Suc n) state =
     (case drawChildren state of
        [Inr state'] \<Rightarrow> drawOut n state'
      | _ \<Rightarrow> None)"

section \<open>The legal moves of the specification\<close>

text \<open>
  The data model of the specification, in its own words and without the functions of the
  code. The value of a card is the value of its rank, the card without its last
  character, the suit, in lower case. The pyramid is a triangle of 7 rows,
  row \<open>r\<close> with \<open>r + 1\<close> slots. A slot is occupied when it holds a card. A card at
  \<open>(r, c)\<close> is exposed when it is on the last row, row 6, or both slots beneath it,
  \<open>(r + 1, c)\<close> and \<open>(r + 1, c + 1)\<close>, are empty.
\<close>

definition cardValue :: "string \<Rightarrow> int" where
  "cardValue crd = rankValue (butlast (toLower crd))"

definition triangle :: "string list list \<Rightarrow> bool" where
  "triangle pyramid \<longleftrightarrow> map length pyramid = [1, 2, 3, 4, 5, 6, 7]"

definition occupiedSlot :: "string list list \<Rightarrow> nat \<Rightarrow> nat \<Rightarrow> bool" where
  "occupiedSlot pyramid r c \<longleftrightarrow> triangle pyramid \<and> r < 7 \<and> c \<le> r \<and> pyramid ! r ! c \<noteq> []"

definition exposedSlot :: "string list list \<Rightarrow> nat \<Rightarrow> nat \<Rightarrow> bool" where
  "exposedSlot pyramid r c \<longleftrightarrow>
     occupiedSlot pyramid r c
     \<and> (r = 6 \<or> (pyramid ! (r + 1) ! c = [] \<and> pyramid ! (r + 1) ! (c + 1) = []))"

text \<open>
  A position is a pyramid, a deck and a waste. \<open>dealt\<close> is the initial position of a
  deal: the first 28 cards are the pyramid, row by row from the apex, and the other 24
  are the deck in the order of the draws.
\<close>

type_synonym position = "string list list \<times> string list \<times> string list"

definition dealt :: "string list \<Rightarrow> position" where
  "dealt cards =
     (map (\<lambda>r. take (r + 1) (drop (r * (r + 1) div 2) cards)) [0, 1, 2, 3, 4, 5, 6],
      drop 28 cards, [])"

text \<open>
  \<open>playMove\<close> applies a move of the log to a position when the move is legal there, and
  is \<^const>\<open>None\<close> when it is not. A removal is legal only on an exposed slot, which is
  occupied, that holds the card the move names; a single removal and a discarded draw
  need a King; the two cards of a pair are on two slots and their values sum to 13, as do
  the values of the top of the waste and the card it is paired with; a draw takes the
  front of the deck; a recycle needs an empty deck and a waste that is not empty.
\<close>

fun playMove :: "move \<Rightarrow> position \<Rightarrow> position option" where
  "playMove (RemoveKing crd r c) (pyramid, deck, waste) =
     (if exposedSlot pyramid r c \<and> pyramid ! r ! c = crd \<and> cardValue crd = 13
      then Some (cleared pyramid r c, deck, waste)
      else None)"
| "playMove (RemovePair crd1 r1 c1 crd2 r2 c2) (pyramid, deck, waste) =
     (if exposedSlot pyramid r1 c1 \<and> pyramid ! r1 ! c1 = crd1
         \<and> exposedSlot pyramid r2 c2 \<and> pyramid ! r2 ! c2 = crd2
         \<and> (r1, c1) \<noteq> (r2, c2) \<and> cardValue crd1 + cardValue crd2 = 13
      then Some (cleared (cleared pyramid r1 c1) r2 c2, deck, waste)
      else None)"
| "playMove (RemoveWaste topWaste crd r c) (pyramid, deck, waste) =
     (if waste \<noteq> [] \<and> last waste = topWaste
         \<and> exposedSlot pyramid r c \<and> pyramid ! r ! c = crd
         \<and> cardValue topWaste + cardValue crd = 13
      then Some (cleared pyramid r c, deck, butlast waste)
      else None)"
| "playMove (DrawKing drawn) (pyramid, deck, waste) =
     (if deck \<noteq> [] \<and> hd deck = drawn \<and> cardValue drawn = 13
      then Some (pyramid, tl deck, waste)
      else None)"
| "playMove (DrawCard drawn) (pyramid, deck, waste) =
     (if deck \<noteq> [] \<and> hd deck = drawn \<and> cardValue drawn \<noteq> 13
      then Some (pyramid, tl deck, waste @ [drawn])
      else None)"
| "playMove Recycle (pyramid, deck, waste) =
     (if deck = [] \<and> waste \<noteq> [] then Some (pyramid, rev waste, []) else None)"

fun playMoves :: "move list \<Rightarrow> position \<Rightarrow> position option" where
  "playMoves [] pos = Some pos"
| "playMoves (m # ms) pos =
     (case playMove m pos of None \<Rightarrow> None | Some pos' \<Rightarrow> playMoves ms pos')"

section \<open>The deal of the program\<close>

text \<open>The card sequence of \<^verbatim>\<open>main\<close>, split at the blanks.\<close>

definition cardSequence :: "string list" where
  "cardSequence =
     [''jd'', ''6h'', ''4c'', ''6c'', ''ac'', ''3h'', ''7c'', ''2h'', ''jh'', ''10s'', ''8c'', ''ah'', ''qh'',
      ''3d'', ''qd'', ''2d'', ''8s'', ''qc'', ''jc'', ''4h'', ''5s'', ''js'', ''2s'', ''3c'', ''4d'', ''7h'',
      ''9c'', ''5h'', ''8h'', ''as'', ''6d'', ''kd'', ''5c'', ''kc'', ''10d'', ''8d'', ''3s'', ''9h'', ''ad'',
      ''kh'', ''9d'', ''qs'', ''7d'', ''4s'', ''9s'', ''10h'', ''10c'', ''ks'', ''6s'', ''5d'', ''7s'', ''2c'']"

text \<open>
  The same deal with its King of Hearts written with the Kelvin sign U+212A (the bytes
  E2 84 AA) in place of the letter k, and a lower-casing function that does on the cards
  of this deal what \<^verbatim>\<open>strings.ToLower\<close> does: it turns that card into "kh" and lower-cases
  the ASCII cards.
\<close>

definition kelvinKh :: string where
  "kelvinKh = [CHR 0xE2, CHR 0x84, CHR 0xAA, CHR ''h'']"



section \<open>Card tokens in the state key\<close>

text \<open>
  What the key of a state needs of its strings to tell states apart: a card token is not
  empty, is not the mark "XX" of a removed card and has none of the separators; a
  pyramid row has at least one slot. \<open>cardState\<close> is a state of well-formed cards: a
  pyramid of at least one row, every row with at least one slot, every slot empty or a
  well-formed card, and a deck and a waste of well-formed cards.
\<close>

definition plainToken :: "string \<Rightarrow> bool" where
  "plainToken t \<longleftrightarrow> t \<noteq> [] \<and> t \<noteq> ''XX'' \<and> CHR '','' \<notin> set t \<and> CHR '';'' \<notin> set t \<and> CHR ''|'' \<notin> set t"

definition cardState :: "GameState \<Rightarrow> bool" where
  "cardState state \<longleftrightarrow>
     Pyramid state \<noteq> []
     \<and> (\<forall>row\<in>set (Pyramid state). row \<noteq> [] \<and> (\<forall>crd\<in>set row. crd = [] \<or> wellFormedCard crd))
     \<and> (\<forall>crd\<in>set (Deck state). wellFormedCard crd)
     \<and> (\<forall>crd\<in>set (Waste state). wellFormedCard crd)"

definition slotToken :: "string \<Rightarrow> string" where
  "slotToken crd = (if crd = [] then ''XX'' else crd)"

definition cardChar :: "char \<Rightarrow> bool" where
  "cardChar c \<longleftrightarrow> c \<in> set ''a0123456789jqkcdhs''"

definition plainRow :: "string list \<Rightarrow> bool" where
  "plainRow row \<longleftrightarrow> row \<noteq> [] \<and> (\<forall>crd\<in>set row. crd = [] \<or> plainToken crd)"

definition plainState :: "GameState \<Rightarrow> bool" where
  "plainState state \<longleftrightarrow>
     (\<forall>row\<in>set (Pyramid state). plainRow row)
     \<and> (\<forall>crd\<in>set (Deck state). plainToken crd) \<and> (\<forall>crd\<in>set (Waste state). plainToken crd)"

section \<open>The search as a relation\<close>

text \<open>
  Names for the parts of \<^verbatim>\<open>solveState\<close>, for the proofs: the result of a call that returns
  at once, the memoization check, the child states of a state in the order the five
  blocks make them (a panic of \<^verbatim>\<open>getExposedCards\<close> stops the call before the first
  block), and the comparison that keeps the better result.
\<close>

definition leafResult :: "GameState \<Rightarrow> Result" where
  "leafResult state = \<lparr>ResultMoves = Moves state, RemovedCount = countRemoved (Pyramid state)\<rparr>"

definition pruned :: "(string \<rightharpoonup> int) \<Rightarrow> GameState \<Rightarrow> bool" where
  "pruned visited state =
     (case visited (serializeState state) of
        Some v \<Rightarrow> v \<ge> countRemoved (Pyramid state)
      | None \<Rightarrow> False)"

definition kids :: "GameState \<Rightarrow> (error + GameState) list" where
  "kids state =
     (case getExposedCards (Pyramid state) of
        Inl e \<Rightarrow> [Inl e]
      | Inr exposed \<Rightarrow> children state (sortExposed exposed))"

definition better :: "Result \<Rightarrow> Result \<Rightarrow> Result" where
  "better res bestResult = (if RemovedCount res > RemovedCount bestResult then res else bestResult)"

text \<open>
  The results of the search, whatever the depth: \<open>solves st vis r\<close> holds when the call on
  \<open>st\<close> with the table \<open>vis\<close> returns \<open>r\<close>, \<open>explores\<close> when the loop over the child
  states does.
\<close>

inductive solves :: "GameState \<Rightarrow> (string \<rightharpoonup> int) \<Rightarrow> (error + Result \<times> (string \<rightharpoonup> int)) \<Rightarrow> bool"
  and explores :: "(error + GameState) list \<Rightarrow> Result \<Rightarrow> (string \<rightharpoonup> int)
       \<Rightarrow> (error + Result \<times> (string \<rightharpoonup> int)) \<Rightarrow> bool"
where
  leaf: "isPyramidEmpty (Pyramid st) \<or> pruned vis st \<Longrightarrow> solves st vis (Inr (leafResult st, vis))"
| node: "\<not> (isPyramidEmpty (Pyramid st) \<or> pruned vis st) \<Longrightarrow>
     explores (kids st) (leafResult st) (vis(serializeState st \<mapsto> countRemoved (Pyramid st))) r \<Longrightarrow>
     solves st vis r"
| nil: "explores [] best vis (Inr (best, vis))"
| panic: "explores (Inl e # rest) best vis (Inl e)"
| childPanic: "solves s vis (Inl e) \<Longrightarrow> explores (Inr s # rest) best vis (Inl e)"
| found: "solves s vis (Inr (res, vis')) \<Longrightarrow> RemovedCount (better res best) = 28 \<Longrightarrow>
     explores (Inr s # rest) best vis (Inr (better res best, vis'))"
| continue: "solves s vis (Inr (res, vis')) \<Longrightarrow> RemovedCount (better res best) \<noteq> 28 \<Longrightarrow>
     explores rest (better res best) vis' r \<Longrightarrow> explores (Inr s # rest) best vis r"

text \<open>
  The order on visited tables in which a call can only move the table up: a key that is
  missing is below every entry, and an entry grows with the count it records.
\<close>

definition lvl :: "int option \<Rightarrow> nat" where
  "lvl x = (case x of None \<Rightarrow> 0 | Some v \<Rightarrow> nat (v + 1))"

definition vle :: "(string \<rightharpoonup> int) \<Rightarrow> (string \<rightharpoonup> int) \<Rightarrow> bool" where
  "vle v v' \<longleftrightarrow> (\<forall>k. lvl (v k) \<le> lvl (v' k))"

text \<open>The position of an exposed card, and the results a state reaches by moves of the replay.\<close>

definition epos :: "ExposedCard \<Rightarrow> nat \<times> nat" where
  "epos e = (erow e, ecol e)"

definition reach :: "GameState \<Rightarrow> Result \<Rightarrow> bool" where
  "reach st res \<longleftrightarrow>
     (\<exists>ms final. replay ms st = Some final \<and> Moves final = ResultMoves res
        \<and> countRemoved (Pyramid final) = RemovedCount res)"

text \<open>
  The states of a deal: a pyramid of seven rows of 1 to 7 slots, every slot empty or a
  card of the deal, a deck and a waste of cards of the deal with at most 24 cards
  together. Their keys are finitely many, and \<open>mu\<close> measures how far a table is from
  holding the highest entry for each of them.
\<close>

definition goodState :: "string list \<Rightarrow> GameState \<Rightarrow> bool" where
  "goodState cards st \<longleftrightarrow>
     map length (Pyramid st) = [1 ..< 8]
     \<and> (\<forall>row\<in>set (Pyramid st). set row \<subseteq> insert [] (set cards))
     \<and> set (Deck st) \<subseteq> set cards \<and> set (Waste st) \<subseteq> set cards
     \<and> length (Deck st) + length (Waste st) \<le> 24"

definition stateKeys :: "string list \<Rightarrow> string set" where
  "stateKeys cards = serializeState ` {st. goodState cards st}"

definition mu :: "string list \<Rightarrow> (string \<rightharpoonup> int) \<Rightarrow> nat" where
  "mu cards vis = (\<Sum>k\<in>stateKeys cards. 29 - lvl (vis k))"

section \<open>Reachable states and what the search covers\<close>

text \<open>
  \<open>proj\<close> is what the key of a state is made from. \<open>reaches s t\<close>: the state \<open>t\<close> is
  \<open>s\<close> or follows from it by child states of the search. The five blocks of
  \<^verbatim>\<open>solveState\<close> make the child states of a state, whether the visited table is checked
  or not, so the reachable states are those that a search can come to when no call is
  cut short by the table or by a full clear. A count is attained from a state when a
  reachable state has removed that many cards; it tops the state when it is 28 or no
  reachable state has removed more.
\<close>

definition proj :: "GameState \<Rightarrow> string list list \<times> string list \<times> string list" where
  "proj st = (Pyramid st, Deck st, Waste st)"

inductive reaches :: "GameState \<Rightarrow> GameState \<Rightarrow> bool" where
  here: "reaches s s"
| step: "Inr c \<in> set (kids s) \<Longrightarrow> reaches c t \<Longrightarrow> reaches s t"

definition attains :: "GameState \<Rightarrow> int \<Rightarrow> bool" where
  "attains st n \<longleftrightarrow> (\<exists>t. reaches st t \<and> countRemoved (Pyramid t) = n)"

definition tops :: "GameState \<Rightarrow> int \<Rightarrow> bool" where
  "tops st n \<longleftrightarrow> n = 28 \<or> (\<forall>t. reaches st t \<longrightarrow> countRemoved (Pyramid t) \<le> n)"

text \<open>
  A visited table is sound when each entry of a state of the deal is the removed count of
  that state. The keys a call adds to the table are covered by a count when each state
  of the deal with such a key has removed at most that many cards and has the keys of
  all its child states in the table. \<open>okS\<close> and \<open>okE\<close> are what a call and the loop over
  the child states keep; \<open>okN\<close> and \<open>okNE\<close> are the same for the search without the
  table.
\<close>

definition sound :: "string list \<Rightarrow> (string \<rightharpoonup> int) \<Rightarrow> bool" where
  "sound cards vis \<longleftrightarrow>
     (\<forall>t v. goodState cards t \<and> vis (serializeState t) = Some v \<longrightarrow> v = countRemoved (Pyramid t))"

definition covered :: "string list \<Rightarrow> (string \<rightharpoonup> int) \<Rightarrow> (string \<rightharpoonup> int) \<Rightarrow> int \<Rightarrow> bool" where
  "covered cards vis vis' n \<longleftrightarrow>
     (\<forall>t. goodState cards t \<and> serializeState t \<in> dom vis' \<and> serializeState t \<notin> dom vis \<longrightarrow>
        countRemoved (Pyramid t) \<le> n
        \<and> (\<forall>c. Inr c \<in> set (kids t) \<longrightarrow> serializeState c \<in> dom vis'))"

definition okS :: "string list \<Rightarrow> GameState \<Rightarrow> (string \<rightharpoonup> int) \<Rightarrow> Result \<Rightarrow> (string \<rightharpoonup> int) \<Rightarrow> bool" where
  "okS cards st vis res vis' \<longleftrightarrow>
     sound cards vis' \<and> dom vis \<subseteq> dom vis'
     \<and> countRemoved (Pyramid st) \<le> RemovedCount res \<and> RemovedCount res \<le> 28
     \<and> (RemovedCount res = 28
         \<or> (serializeState st \<in> dom vis' \<and> covered cards vis vis' (RemovedCount res)))"

definition okE :: "string list \<Rightarrow> (error + GameState) list \<Rightarrow> Result \<Rightarrow> (string \<rightharpoonup> int) \<Rightarrow> Result
    \<Rightarrow> (string \<rightharpoonup> int) \<Rightarrow> bool" where
  "okE cards cs best vis res vis' \<longleftrightarrow>
     sound cards vis' \<and> dom vis \<subseteq> dom vis'
     \<and> RemovedCount best \<le> RemovedCount res \<and> RemovedCount res \<le> 28
     \<and> (RemovedCount res = 28
         \<or> ((\<forall>c. Inr c \<in> set cs \<longrightarrow> serializeState c \<in> dom vis')
             \<and> covered cards vis vis' (RemovedCount res)))"

definition okN :: "GameState \<Rightarrow> Result \<Rightarrow> bool" where
  "okN st res \<longleftrightarrow> attains st (RemovedCount res) \<and> RemovedCount res \<le> 28 \<and> tops st (RemovedCount res)"

definition okNE :: "(error + GameState) list \<Rightarrow> Result \<Rightarrow> Result \<Rightarrow> bool" where
  "okNE cs best res \<longleftrightarrow>
     (res = best \<or> (\<exists>c. Inr c \<in> set cs \<and> attains c (RemovedCount res)))
     \<and> RemovedCount res \<le> 28 \<and> RemovedCount best \<le> RemovedCount res
     \<and> (RemovedCount res = 28 \<or> (\<forall>c. Inr c \<in> set cs \<longrightarrow> tops c (RemovedCount res)))"

text \<open>
  A state is unfinished when a card that is not a King is in its deck or its waste: then
  the state has a draw or a recycle as its last child state, which is unfinished too.
\<close>

definition unfinished :: "GameState \<Rightarrow> bool" where
  "unfinished st \<longleftrightarrow> (\<exists>crd\<in>set (Deck st @ Waste st). getCardValue crd \<noteq> Inr 13)"

section \<open>Two deals\<close>

text \<open>
  A deal on which no card can ever be removed: the bottom row holds Aces and Twos, every
  Queen and Jack lies above it, and the deck holds the ranks 6 to 10 and the Kings.
  \<open>stuckState\<close> are the states the search reaches on it. And a deal that the first
  choices of the search clear completely.
\<close>

definition stuckPyramid :: "string list list" where
  "stuckPyramid =
     [[''qc''], [''qd'', ''qh''], [''qs'', ''jc'', ''jd''], [''jh'', ''js'', ''2s'', ''3c''],
      [''3d'', ''3h'', ''3s'', ''4c'', ''4d''], [''4h'', ''4s'', ''5c'', ''5d'', ''5h'', ''5s''],
      [''ac'', ''ad'', ''ah'', ''as'', ''2c'', ''2d'', ''2h'']]"

definition stuckDeck :: "string list" where
  "stuckDeck =
     [''6c'', ''6d'', ''6h'', ''6s'', ''7c'', ''7d'', ''7h'', ''7s'', ''8c'', ''8d'', ''8h'', ''8s'',
      ''9c'', ''9d'', ''9h'', ''9s'', ''10c'', ''10d'', ''10h'', ''10s'', ''kc'', ''kd'', ''kh'', ''ks'']"

definition stuckDeal :: "string list" where
  "stuckDeal = concat stuckPyramid @ stuckDeck"

definition stuckState :: "GameState \<Rightarrow> bool" where
  "stuckState st \<longleftrightarrow>
     Pyramid st = stuckPyramid
     \<and> set (Deck st) \<subseteq> set stuckDeck \<and> set (Waste st) \<subseteq> set stuckDeck
     \<and> (\<forall>crd\<in>set (Waste st). getCardValue crd \<noteq> Inr 13)
     \<and> (Waste st \<noteq> [] \<or> (\<exists>crd\<in>set (Deck st). getCardValue crd \<noteq> Inr 13))"

definition greedyDeal :: "string list" where
  "greedyDeal =
     [''3d'', ''ac'', ''8d'', ''5d'', ''6d'', ''kc'', ''7c'', ''4h'', ''qs'', ''ks'', ''9c'', ''3c'', ''8s'',
      ''ah'', ''10c'', ''3h'', ''ad'', ''10d'', ''jh'', ''9h'', ''6h'', ''7h'', ''4c'', ''qc'', ''8c'', ''kd'',
      ''5s'', ''2c'', ''5h'', ''qh'', ''jd'', ''8h'', ''10h'', ''js'', ''7d'', ''3s'', ''qd'', ''9d'', ''kh'',
      ''6c'', ''7s'', ''10s'', ''9s'', ''2s'', ''4s'', ''6s'', ''4d'', ''2d'', ''2h'', ''5c'', ''as'', ''jc'']"

section \<open>Card values\<close>

lemma toLowerChar_digit1: "toLowerChar (CHR ''1'') = CHR ''1''"
  by (simp add: toLowerChar_def)

lemma toLowerChar_eq_1: "toLowerChar c = CHR ''1'' \<longleftrightarrow> c = CHR ''1''"
  by (auto simp: toLowerChar_def split: if_splits)

lemma toLowerChar_eq_0: "toLowerChar c = CHR ''0'' \<longleftrightarrow> c = CHR ''0''"
  by (auto simp: toLowerChar_def split: if_splits)

text \<open>
  Claim C10: \<^verbatim>\<open>getCardValue\<close> is safe exactly on the non-empty strings. On the empty string
  the read of \<^verbatim>\<open>card[0]\<close> is out of bounds, so the error branch is reached; on every
  non-empty string it is not.
\<close>

theorem getCardValue_panics_iff_empty: "(\<exists>e. getCardValue crd = Inl e) \<longleftrightarrow> crd = []"
  by (cases crd) (auto simp: getCardValue_def hasPrefix_def Let_def)

lemma getCardValue_nonempty:
  "crd \<noteq> [] \<Longrightarrow> \<exists>v. getCardValue crd = Inr v"
  by (cases crd) (auto simp: getCardValue_def hasPrefix_def Let_def)

lemma getCardValue_10: "getCardValue (CHR ''1'' # CHR ''0'' # rest) = Inr 10"
  by (simp add: getCardValue_def hasPrefix_def)

lemma getCardValue_single:
  "toLowerChar c0 = r \<Longrightarrow> r \<in> set ''a23456789jqk'' \<Longrightarrow>
   getCardValue (c0 # rest) = Inr (rankValue [r])"
proof -
  assume a: "toLowerChar c0 = r" "r \<in> set ''a23456789jqk''"
  then have "c0 \<noteq> CHR ''1''" using toLowerChar_digit1 by auto
  then have np: "\<not> hasPrefix (c0 # rest) ''10''" by (simp add: hasPrefix_def)
  have rv: "rankValue [r] = (if r = CHR ''a'' then 1 else if r = CHR ''2'' then 2 else if r = CHR ''3'' then 3
     else if r = CHR ''4'' then 4 else if r = CHR ''5'' then 5 else if r = CHR ''6'' then 6 else if r = CHR ''7'' then 7
     else if r = CHR ''8'' then 8 else if r = CHR ''9'' then 9 else if r = CHR ''j'' then 11 else if r = CHR ''q'' then 12
     else if r = CHR ''k'' then 13 else 0)"
    by (simp add: rankValue_def ranks_def)
  show ?thesis unfolding rv using np a(1) by (simp add: getCardValue_def)
qed



lemma ranks_cases:
  "rank \<in> set ranks \<Longrightarrow> rank = ''10'' \<or> (length rank = 1 \<and> hd rank \<in> set ''a23456789jqk'')"
  unfolding ranks_def by (simp, elim disjE, simp_all)

lemma getCardValue_wellFormed: "rank \<in> set ranks \<Longrightarrow> suit \<in> set suits \<Longrightarrow> toLower crd = rank @ suit \<Longrightarrow> getCardValue crd = Inr (rankValue rank)"
proof -
  assume r: "rank \<in> set ranks" and s: "suit \<in> set suits" and t: "toLower crd = rank @ suit"
  show ?thesis
  proof (cases "rank = ''10''")
    case True
    with t obtain c1 c2 rest where crd: "crd = c1 # c2 # rest" and "toLowerChar c1 = CHR ''1''" "toLowerChar c2 = CHR ''0''"
      by (auto simp: toLower_def map_eq_Cons_conv)
    then have "c1 = CHR ''1''" "c2 = CHR ''0''" by (simp_all add: toLowerChar_eq_1 toLowerChar_eq_0)
    with crd True show ?thesis by (simp add: getCardValue_10 rankValue_def ranks_def)
  next
    case False
    with r have "length rank = 1" and "hd rank \<in> set ''a23456789jqk''"
      using ranks_cases by blast+
    then obtain rc where rank: "rank = [rc]" and rc: "rc \<in> set ''a23456789jqk''"
      by (cases rank) simp_all
    from t rank obtain c0 rest where "crd = c0 # rest" "toLowerChar c0 = rc"
      by (cases crd) (simp_all add: toLower_def)
    with rc rank show ?thesis using getCardValue_single by metis
  qed
qed

lemma getCardValue_zero_iff: "crd \<noteq> [] \<Longrightarrow> \<exists>v. getCardValue crd = Inr v \<and>
   (v = 0 \<longleftrightarrow> \<not> hasPrefix crd ''10'' \<and> toLowerChar (hd crd) \<notin> set ''a23456789jqk'')"
  by (cases crd) (auto simp: getCardValue_def Let_def)

text \<open>
  Claim C7, as the code has it: \<^verbatim>\<open>getCardValue\<close> maps every well-formed card token (a rank
  and a suit, in either case) to the value of its rank: Ace 1, the ranks 2 to 10
  themselves, Jack 11, Queen 12, King 13. On a non-empty input it raises no error, and it
  yields 0 exactly when the input does not start with "10" and its first character,
  lower-cased, is none of a, 2 to 9, j, q, k: only the start of the input is read.
\<close>

theorem getCardValue_by_rank:
  "(rank \<in> set ranks \<and> suit \<in> set suits \<and> toLower crd = rank @ suit
      \<longrightarrow> getCardValue crd = Inr (rankValue rank))
   \<and> (crd \<noteq> [] \<longrightarrow>
        (\<exists>v. getCardValue crd = Inr v
           \<and> (v = 0 \<longleftrightarrow> \<not> hasPrefix crd ''10'' \<and> toLowerChar (hd crd) \<notin> set ''a23456789jqk'')))"
  using getCardValue_wellFormed getCardValue_zero_iff by blast

theorem getCardValue_by_rank_witness:
  "getCardValue ''Kh'' = Inr (rankValue ''k'') \<and> rankValue ''k'' = 13
   \<and> (\<exists>v. getCardValue ''zz'' = Inr v \<and> v = 0)"
proof -
  have 1: "''k'' \<in> set ranks \<and> ''h'' \<in> set suits \<and> toLower ''Kh'' = ''k'' @ ''h''"
    by (simp add: ranks_def suits_def toLower_def toLowerChar_def)
  have 2: "\<not> hasPrefix ''zz'' ''10'' \<and> toLowerChar (hd ''zz'') \<notin> set ''a23456789jqk''"
    by (simp add: hasPrefix_def toLowerChar_def)
  have 3: "rankValue ''k'' = 13" by (simp add: rankValue_def ranks_def)
  from getCardValue_by_rank[of "''k''" "''h''" "''Kh''"] 1
  have a: "getCardValue ''Kh'' = Inr (rankValue ''k'')" by blast
  from getCardValue_by_rank[of "''k''" "''h''" "''zz''"] 2
  have b: "\<exists>v. getCardValue ''zz'' = Inr v \<and> v = 0" by auto
  from a b 3 show ?thesis by blast
qed

text \<open>
  The claim as the specification words it fails: a malformed input does not always
  yield 0. "kx" is no card (x is no suit) and has the value 13.
\<close>

theorem getCardValue_malformed_counterexample:
  "\<not> wellFormedCard ''kx'' \<and> getCardValue ''kx'' = Inr 13"
  by (simp add: wellFormedCard_def standardDeck_def ranks_def suits_def toLower_def
      toLowerChar_def getCardValue_def hasPrefix_def)

section \<open>The deck check\<close>

lemma countCards_lookup:
  "countCards lower cards m k =
     (let n = int (count_list (map lower cards) k) in
      case m k of None \<Rightarrow> (if n = 0 then None else Some n) | Some v \<Rightarrow> Some (v + n))"
  by (induction cards arbitrary: m) (auto simp: Let_def split: option.splits)


lemma checkCards_None:
  "checkCards m cs = None \<longleftrightarrow> (\<forall>c\<in>set cs. \<exists>n. m c = Some n \<and> n \<le> 1)"
  by (induction cs) (auto split: option.splits)


lemma checkDeck_lower_iff:
  "checkDeck lower cards = None \<longleftrightarrow>
     length cards = 52 \<and> (\<forall>c\<in>set standardDeck. count_list (map lower cards) c = 1)"
  by (auto simp: checkDeck_def checkCards_None countCards_lookup Let_def split: if_splits)

lemma checkDeck_iff:
  "checkDeck toLower cards = None \<longleftrightarrow>
     length cards = 52 \<and> (\<forall>c\<in>set standardDeck. count_list (map toLower cards) c = 1)"
  by (rule checkDeck_lower_iff)



lemma cardSequence_counts:
  "length cardSequence = 52 \<and> list_all (\<lambda>c. count_list (map toLower cardSequence) c = 1) standardDeck"
  by code_simp



text \<open>
  The check and the card values read a card differently: the check lower-cases the
  whole card, \<^verbatim>\<open>getCardValue\<close> reads its first byte. The King of Hearts written with the
  Kelvin sign passes the check of the source, as above, and has the value 0. The claims
  about the search are stated for the decks that pass the check with \<^const>\<open>toLower\<close>:
  the 52 cards of a rank and a suit, each once, in either case.
\<close>

lemma kelvinKh_value: "getCardValue kelvinKh = Inr 0"
  by (simp add: kelvinKh_def getCardValue_def hasPrefix_def toLowerChar_def)

section \<open>The draw of a King\<close>

text \<open>
  Claim C4: when the deck is not empty and its front card has the value 13, the draw
  block makes one child: the card is popped from the deck, the waste and the pyramid are
  the parent's, so the number of removed pyramid cards is the parent's too.
\<close>

theorem draw_King_child:
  "Deck state = drawn # deck \<Longrightarrow> getCardValue drawn = Inr 13 \<Longrightarrow>
   \<exists>child. drawChildren state = [Inr child] \<and> Deck child = deck \<and> Waste child = Waste state
     \<and> Pyramid child = Pyramid state \<and> countRemoved (Pyramid child) = countRemoved (Pyramid state)
     \<and> Moves child = Moves state @ [DrawKing drawn]"
  by (simp add: drawChildren_def)

theorem draw_King_child_witness:
  "\<exists>child. drawChildren \<lparr>Pyramid = [[''ah'']], Deck = [''kh'', ''2c''], Waste = [''3d''], Moves = []\<rparr>
       = [Inr child]
     \<and> Deck child = [''2c''] \<and> Waste child = [''3d''] \<and> Pyramid child = [[''ah'']]
     \<and> countRemoved (Pyramid child) = countRemoved [[''ah'']] \<and> Moves child = [DrawKing ''kh'']"
proof -
  have "getCardValue ''kh'' = Inr 13"
    by (simp add: getCardValue_def hasPrefix_def toLowerChar_def)
  from draw_King_child[of "\<lparr>Pyramid = [[''ah'']], Deck = [''kh'', ''2c''], Waste = [''3d''], Moves = []\<rparr>"
      "''kh''" "[''2c'']", OF _ this]
  show ?thesis by simp
qed

section \<open>Exposed cards and the removal of a card\<close>

lemma slots_iff: "(r, c) \<in> set (slots p) \<longleftrightarrow> r < length p \<and> c < length (p ! r)"
  by (force simp: slots_def)

lemma isExposed_True_occupied: "isExposed p r c = Inr True \<Longrightarrow> p ! r ! c \<noteq> []"
  by (auto simp: isExposed_def split: if_splits)

lemma exposedLoop_sound:
  "exposedLoop p ps = Inr es \<Longrightarrow> e \<in> set es \<Longrightarrow>
     (erow e, ecol e) \<in> set ps \<and> ecard e = p ! erow e ! ecol e
     \<and> isExposed p (erow e) (ecol e) = Inr True \<and> getCardValue (ecard e) = Inr (evalue e)"
proof (induction ps arbitrary: es)
  case Nil
  then show ?case by simp
next
  case (Cons a ps)
  obtain r c where a: "a = (r, c)" by (cases a)
  show ?case
  proof (cases "isExposed p r c")
    case (Inl x)
    with Cons.prems a show ?thesis by simp
  next
    case (Inr b)
    show ?thesis
    proof (cases b)
      case False
      with Inr Cons.prems(1) a have "exposedLoop p ps = Inr es" by simp
      from Cons.IH[OF this Cons.prems(2)] show ?thesis by auto
    next
      case True
      with Inr Cons.prems a obtain v es' where
        v: "getCardValue (p ! r ! c) = Inr v" and es': "exposedLoop p ps = Inr es'"
        and es: "es = \<lparr>erow = r, ecol = c, ecard = p ! r ! c, evalue = v\<rparr> # es'"
        by (auto split: sum.splits)
      show ?thesis
      proof (cases "e \<in> set es'")
        case True
        with Cons.IH[OF es'] show ?thesis by auto
      next
        case False
        with Cons.prems(2) es have "e = \<lparr>erow = r, ecol = c, ecard = p ! r ! c, evalue = v\<rparr>" by simp
        with v Inr \<open>b\<close> a show ?thesis by simp
      qed
    qed
  qed
qed

lemma getExposedCards_sound:
  "getExposedCards p = Inr es \<Longrightarrow> e \<in> set es \<Longrightarrow>
     erow e < length p \<and> ecol e < length (p ! erow e) \<and> ecard e = p ! erow e ! ecol e
     \<and> p ! erow e ! ecol e \<noteq> []
     \<and> isExposed p (erow e) (ecol e) = Inr True \<and> getCardValue (ecard e) = Inr (evalue e)"
  unfolding getExposedCards_def
  using exposedLoop_sound[of p "slots p" es e] slots_iff[of "erow e" "ecol e" p] isExposed_True_occupied
  by blast




section \<open>The recycle of the waste\<close>

lemma drawOut_all:
  "\<forall>c\<in>set d. c \<noteq> [] \<and> getCardValue c \<noteq> Inr 13 \<Longrightarrow> Deck st = d \<Longrightarrow>
   drawOut (length d) st = Some (st\<lparr>Deck := [], Waste := Waste st @ d, Moves := Moves st @ map DrawCard d\<rparr>)"
proof (induction d arbitrary: st)
  case Nil
  then show ?case by simp
next
  case (Cons c d)
  from Cons.prems(1) have "c \<noteq> []" and n13: "getCardValue c \<noteq> Inr 13" by simp_all
  then obtain v where v: "getCardValue c = Inr v" using getCardValue_nonempty by blast
  with n13 have v13: "v \<noteq> 13" by simp
  let ?child = "st\<lparr>Deck := d, Waste := Waste st @ [c], Moves := Moves st @ [DrawCard c]\<rparr>"
  have dc: "drawChildren st = [Inr ?child]"
    using Cons.prems(2) v v13 by (simp add: drawChildren_def)
  have "drawOut (length d) ?child = Some (?child\<lparr>Deck := [], Waste := Waste ?child @ d, Moves := Moves ?child @ map DrawCard d\<rparr>)"
    using Cons.prems(1) by (intro Cons.IH) simp_all
  with dc show ?case by simp
qed

text \<open>
  Claim C5, as the code has it: the recycle block makes a child only when the deck is
  empty and the waste is not; the child has the reverse of the parent's waste as its deck
  and an empty waste. Drawing the whole recycled deck back out (it holds no King) gives
  a waste that is the reverse of the parent's waste, not the parent's waste: a draw
  appends to the waste in the order of the deck. A second recycle and a second full draw
  give the parent's waste again.
\<close>

theorem recycle_reverses_waste:
  "(recycleChildren state \<noteq> [] \<longleftrightarrow> Deck state = [] \<and> Waste state \<noteq> [])
   \<and> (Deck state = [] \<and> Waste state \<noteq> [] \<longrightarrow>
        recycleChildren state =
          [Inr (state\<lparr>Deck := rev (Waste state), Waste := [], Moves := Moves state @ [Recycle]\<rparr>)])
   \<and> (Deck state = [] \<and> Waste state \<noteq> []
        \<and> (\<forall>crd\<in>set (Waste state). crd \<noteq> [] \<and> getCardValue crd \<noteq> Inr 13) \<longrightarrow>
        (\<exists>child again. recycleChildren state = [Inr child]
           \<and> drawOut (length (Deck child)) child = Some again
           \<and> Deck again = [] \<and> Waste again = rev (Waste state) \<and> Pyramid again = Pyramid state
           \<and> (\<exists>child2 redrawn. recycleChildren again = [Inr child2]
                \<and> drawOut (length (Deck child2)) child2 = Some redrawn
                \<and> Deck redrawn = [] \<and> Waste redrawn = Waste state \<and> Pyramid redrawn = Pyramid state)))"
proof -
  have a: "recycleChildren state \<noteq> [] \<longleftrightarrow> Deck state = [] \<and> Waste state \<noteq> []"
    by (simp add: recycleChildren_def)
  have b: "recycleChildren state =
          [Inr (state\<lparr>Deck := rev (Waste state), Waste := [], Moves := Moves state @ [Recycle]\<rparr>)]"
    if "Deck state = [] \<and> Waste state \<noteq> []"
    using that by (simp add: recycleChildren_def)
  have c: "\<exists>child again. recycleChildren state = [Inr child]
           \<and> drawOut (length (Deck child)) child = Some again
           \<and> Deck again = [] \<and> Waste again = rev (Waste state) \<and> Pyramid again = Pyramid state
           \<and> (\<exists>child2 redrawn. recycleChildren again = [Inr child2]
                \<and> drawOut (length (Deck child2)) child2 = Some redrawn
                \<and> Deck redrawn = [] \<and> Waste redrawn = Waste state \<and> Pyramid redrawn = Pyramid state)"
    if h: "Deck state = [] \<and> Waste state \<noteq> []
        \<and> (\<forall>crd\<in>set (Waste state). crd \<noteq> [] \<and> getCardValue crd \<noteq> Inr 13)"
  proof -
    let ?child = "state\<lparr>Deck := rev (Waste state), Waste := [], Moves := Moves state @ [Recycle]\<rparr>"
    let ?again = "?child\<lparr>Deck := [], Waste := Waste ?child @ rev (Waste state),
                    Moves := Moves ?child @ map DrawCard (rev (Waste state))\<rparr>"
    let ?child2 = "?again\<lparr>Deck := rev (Waste ?again), Waste := [], Moves := Moves ?again @ [Recycle]\<rparr>"
    let ?redrawn = "?child2\<lparr>Deck := [], Waste := Waste ?child2 @ Waste state,
                    Moves := Moves ?child2 @ map DrawCard (Waste state)\<rparr>"
    have 1: "recycleChildren state = [Inr ?child]" using b h by blast
    have 2: "drawOut (length (Deck ?child)) ?child = Some ?again"
      using drawOut_all[of "rev (Waste state)" ?child] h by simp
    have 3: "recycleChildren ?again = [Inr ?child2]"
      using h by (simp add: recycleChildren_def)
    have 4: "drawOut (length (Deck ?child2)) ?child2 = Some ?redrawn"
      using drawOut_all[of "Waste state" ?child2] h by simp
    show ?thesis
      apply (rule exI[of _ ?child], rule exI[of _ ?again])
      apply (intro conjI 1 2)
         apply simp apply simp apply simp
      apply (rule exI[of _ ?child2], rule exI[of _ ?redrawn])
      apply (intro conjI 3 4)
        apply simp apply simp apply simp
      done
  qed
  from a b c show ?thesis by blast
qed

theorem recycle_reverses_waste_witness:
  "\<exists>child again.
     recycleChildren \<lparr>Pyramid = [[''ah'']], Deck = [], Waste = [''2c'', ''3d''], Moves = []\<rparr> = [Inr child]
     \<and> drawOut (length (Deck child)) child = Some again
     \<and> Deck again = [] \<and> Waste again = [''3d'', ''2c'']
     \<and> (\<exists>child2 redrawn. recycleChildren again = [Inr child2]
          \<and> drawOut (length (Deck child2)) child2 = Some redrawn
          \<and> Deck redrawn = [] \<and> Waste redrawn = [''2c'', ''3d''])"
proof -
  have v: "getCardValue ''2c'' = Inr 2" "getCardValue ''3d'' = Inr 3"
    by (simp_all add: getCardValue_def hasPrefix_def toLowerChar_def)
  have h: "Deck \<lparr>Pyramid = [[''ah'']], Deck = [], Waste = [''2c'', ''3d''], Moves = []\<rparr> = []
      \<and> Waste \<lparr>Pyramid = [[''ah'']], Deck = [], Waste = [''2c'', ''3d''], Moves = []\<rparr> \<noteq> []
      \<and> (\<forall>crd\<in>set (Waste \<lparr>Pyramid = [[''ah'']], Deck = [], Waste = [''2c'', ''3d''], Moves = []\<rparr>).
            crd \<noteq> [] \<and> getCardValue crd \<noteq> Inr 13)"
    using v by simp
  let ?S = "\<lparr>Pyramid = [[''ah'']], Deck = [], Waste = [''2c'', ''3d''], Moves = []\<rparr>"
  from recycle_reverses_waste[of ?S] h
  have E: "\<exists>child again. recycleChildren ?S = [Inr child]
           \<and> drawOut (length (Deck child)) child = Some again
           \<and> Deck again = [] \<and> Waste again = rev (Waste ?S) \<and> Pyramid again = Pyramid ?S
           \<and> (\<exists>child2 redrawn. recycleChildren again = [Inr child2]
                \<and> drawOut (length (Deck child2)) child2 = Some redrawn
                \<and> Deck redrawn = [] \<and> Waste redrawn = Waste ?S \<and> Pyramid redrawn = Pyramid ?S)"
    by blast
  have w: "Waste ?S = [''2c'', ''3d'']" and r: "rev [''2c'', ''3d''] = [''3d'', ''2c'']"
    by simp_all
  from E show ?thesis unfolding w r by blast
qed

text \<open>
  The claim as the specification words it fails: after the recycle of the waste 2c, 3d
  the deck is 3d, 2c, and drawing these two cards gives the waste 3d, 2c, which is not
  the waste before the recycle.
\<close>

theorem recycle_redraw_counterexample:
  "\<exists>child again.
     recycleChildren \<lparr>Pyramid = [[''ah'']], Deck = [], Waste = [''2c'', ''3d''], Moves = []\<rparr> = [Inr child]
     \<and> Deck child = [''3d'', ''2c''] \<and> Waste child = []
     \<and> drawOut (length (Deck child)) child = Some again
     \<and> Waste again = [''3d'', ''2c''] \<and> Waste again \<noteq> [''2c'', ''3d'']"
  by (simp add: recycleChildren_def drawChildren_def getCardValue_def hasPrefix_def toLowerChar_def)

section \<open>The key of a state\<close>

lemma sep_split:
  "sep \<notin> set a \<Longrightarrow> sep \<notin> set b \<Longrightarrow> a @ sep # r = b @ sep # r' \<Longrightarrow> a = b \<and> r = r'"
proof (induction a arbitrary: b)
  case Nil
  then show ?case by (cases b) auto
next
  case (Cons x a)
  then show ?case by (cases b) auto
qed

lemma joinStrings_Cons:
  "joinStrings (x # xs) sep = (if xs = [] then x else x @ sep @ joinStrings xs sep)"
  by (cases xs) simp_all

lemma set_joinStrings: "set (joinStrings xs sep) \<subseteq> (\<Union>x\<in>set xs. set x) \<union> set sep"
  by (induction xs sep rule: joinStrings.induct) auto

lemma joinStrings_nonempty: "xs \<noteq> [] \<Longrightarrow> \<forall>t\<in>set xs. t \<noteq> [] \<Longrightarrow> joinStrings xs sep \<noteq> []"
  by (cases xs) (auto simp: joinStrings_Cons)

lemma joinStrings_inj:
  "\<forall>t\<in>set xs. t \<noteq> [] \<and> c \<notin> set t \<Longrightarrow> \<forall>t\<in>set ys. t \<noteq> [] \<and> c \<notin> set t \<Longrightarrow>
   joinStrings xs [c] = joinStrings ys [c] \<Longrightarrow> xs = ys"
proof (induction xs arbitrary: ys)
  case Nil
  show ?case
  proof (cases ys)
    case Nil then show ?thesis by simp
  next
    case (Cons y ys')
    with Nil.prems have "joinStrings ys [c] \<noteq> []" by (intro joinStrings_nonempty) auto
    with Nil.prems show ?thesis by simp
  qed
next
  case (Cons x xs)
  show ?case
  proof (cases ys)
    case Nil
    have "joinStrings (x # xs) [c] \<noteq> []" using Cons.prems(1) by (intro joinStrings_nonempty) auto
    with Cons.prems Nil show ?thesis by simp
  next
    case ys: (Cons y ys')
    from Cons.prems ys have cx: "c \<notin> set x" and cy: "c \<notin> set y" by auto
    from Cons.prems(3) ys
    have eq: "(if xs = [] then x else x @ c # joinStrings xs [c]) = (if ys' = [] then y else y @ c # joinStrings ys' [c])"
      by (auto simp: joinStrings_Cons split: if_splits)
    show ?thesis
    proof (cases "xs = []")
      case True
      show ?thesis
      proof (cases "ys' = []")
        case True with \<open>xs = []\<close> eq ys show ?thesis by simp
      next
        case False
        with True eq have "x = y @ c # joinStrings ys' [c]" by simp
        then have "c \<in> set x" by simp
        with cx show ?thesis by simp
      qed
    next
      case False
      show ?thesis
      proof (cases "ys' = []")
        case True
        with False eq have "y = x @ c # joinStrings xs [c]" by simp
        then have "c \<in> set y" by simp
        with cy show ?thesis by simp
      next
        case F2: False
        with False eq have "x @ c # joinStrings xs [c] = y @ c # joinStrings ys' [c]" by simp
        from sep_split[OF cx cy this] have "x = y" and j: "joinStrings xs [c] = joinStrings ys' [c]" by simp_all
        from Cons.IH[OF _ _ j] Cons.prems ys have "xs = ys'" by auto
        with \<open>x = y\<close> ys show ?thesis by simp
      qed
    qed
  qed
qed

lemma serializeRow_join: "serializeRow row = joinStrings (map slotToken row) '',''"
proof (induction row)
  case Nil
  then show ?case by simp
next
  case (Cons crd rest)
  then show ?case by (cases rest) (simp_all add: slotToken_def)
qed

lemma serializeRows_join: "serializeRows rows = joinStrings (map serializeRow rows) '';''"
proof (induction rows)
  case Nil
  then show ?case by simp
next
  case (Cons row rest)
  then show ?case by (cases rest) simp_all
qed

lemma ranks_chars: "r \<in> set ranks \<Longrightarrow> r \<noteq> [] \<and> list_all cardChar r"
  unfolding ranks_def by (simp, elim disjE, simp_all add: cardChar_def)

lemma suits_chars: "s \<in> set suits \<Longrightarrow> s \<noteq> [] \<and> list_all cardChar s"
  unfolding suits_def by (simp, elim disjE, simp_all add: cardChar_def)

lemma standardDeck_chars: "s \<in> set standardDeck \<Longrightarrow> s \<noteq> [] \<and> list_all cardChar s"
proof -
  assume "s \<in> set standardDeck"
  then obtain r u where "r \<in> set ranks" "u \<in> set suits" "s = r @ u"
    unfolding standardDeck_def by auto
  with ranks_chars[of r] suits_chars[of u] show ?thesis by simp
qed

lemma toLowerChar_alphabet:
  assumes "cardChar (toLowerChar c)"
  shows "c \<noteq> CHR '','' \<and> c \<noteq> CHR '';'' \<and> c \<noteq> CHR ''|'' \<and> c \<noteq> CHR ''X''"
proof -
  have "\<not> cardChar (toLowerChar (CHR '',''))" "\<not> cardChar (toLowerChar (CHR '';''))"
    "\<not> cardChar (toLowerChar (CHR ''|''))" "\<not> cardChar (toLowerChar (CHR ''X''))"
    by (simp_all add: toLowerChar_def cardChar_def)
  with assms show ?thesis by blast
qed

lemma wellFormedCard_plain: "wellFormedCard t \<Longrightarrow> plainToken t"
proof -
  assume "wellFormedCard t"
  then have ne: "toLower t \<noteq> []" and la: "list_all cardChar (toLower t)"
    using standardDeck_chars unfolding wellFormedCard_def by blast+
  from la have "\<forall>c\<in>set t. cardChar (toLowerChar c)"
    by (simp add: toLower_def list_all_iff)
  then have nc: "\<forall>c\<in>set t. c \<noteq> CHR '','' \<and> c \<noteq> CHR '';'' \<and> c \<noteq> CHR ''|'' \<and> c \<noteq> CHR ''X''"
    using toLowerChar_alphabet by blast
  from ne have "t \<noteq> []" by (simp add: toLower_def)
  moreover have "t \<noteq> ''XX''"
  proof
    assume "t = ''XX''"
    then have "CHR ''X'' \<in> set t" by simp
    with nc show False by blast
  qed
  moreover have "CHR '','' \<notin> set t" "CHR '';'' \<notin> set t" "CHR ''|'' \<notin> set t" using nc by blast+
  ultimately show ?thesis unfolding plainToken_def by simp
qed

lemma slotToken_props:
  "crd = [] \<or> plainToken crd \<Longrightarrow>
     slotToken crd \<noteq> [] \<and> CHR '','' \<notin> set (slotToken crd) \<and> CHR '';'' \<notin> set (slotToken crd)
     \<and> CHR ''|'' \<notin> set (slotToken crd)"
  by (auto simp: slotToken_def plainToken_def)

lemma slotToken_inj:
  "a = [] \<or> plainToken a \<Longrightarrow> b = [] \<or> plainToken b \<Longrightarrow> slotToken a = slotToken b \<Longrightarrow> a = b"
  by (auto simp: slotToken_def plainToken_def split: if_splits)

lemma serializeRow_props:
  assumes "plainRow row"
  shows "serializeRow row \<noteq> []" "CHR '';'' \<notin> set (serializeRow row)" "CHR ''|'' \<notin> set (serializeRow row)"
proof -
  from assms have ne: "map slotToken row \<noteq> []" and
    t: "\<forall>t\<in>set (map slotToken row). t \<noteq> [] \<and> CHR '';'' \<notin> set t \<and> CHR ''|'' \<notin> set t"
    using slotToken_props unfolding plainRow_def by auto
  show "serializeRow row \<noteq> []"
    unfolding serializeRow_join using ne t by (intro joinStrings_nonempty) auto
  show "CHR '';'' \<notin> set (serializeRow row)"
    unfolding serializeRow_join using set_joinStrings[of "map slotToken row" "'',''"] t by auto
  show "CHR ''|'' \<notin> set (serializeRow row)"
    unfolding serializeRow_join using set_joinStrings[of "map slotToken row" "'',''"] t by auto
qed

lemma serializeRow_inj:
  assumes "plainRow r1" "plainRow r2" "serializeRow r1 = serializeRow r2"
  shows "r1 = r2"
proof -
  have "map slotToken r1 = map slotToken r2"
  proof (rule joinStrings_inj[of _ "CHR '',''"])
    show "\<forall>t\<in>set (map slotToken r1). t \<noteq> [] \<and> CHR '','' \<notin> set t"
      using assms(1) slotToken_props unfolding plainRow_def by auto
    show "\<forall>t\<in>set (map slotToken r2). t \<noteq> [] \<and> CHR '','' \<notin> set t"
      using assms(2) slotToken_props unfolding plainRow_def by auto
    show "joinStrings (map slotToken r1) '','' = joinStrings (map slotToken r2) '',''"
      using assms(3) by (simp add: serializeRow_join)
  qed
  moreover have "inj_on slotToken (set r1 \<union> set r2)"
    using assms(1,2) slotToken_inj unfolding plainRow_def inj_on_def by blast
  ultimately show ?thesis by (simp add: inj_on_map_eq_map)
qed

lemma serializeRows_inj:
  assumes "\<forall>row\<in>set p1. plainRow row" "\<forall>row\<in>set p2. plainRow row"
    "serializeRows p1 = serializeRows p2"
  shows "p1 = p2"
proof -
  have "map serializeRow p1 = map serializeRow p2"
  proof (rule joinStrings_inj[of _ "CHR '';''"])
    show "\<forall>t\<in>set (map serializeRow p1). t \<noteq> [] \<and> CHR '';'' \<notin> set t"
      using assms(1) serializeRow_props by auto
    show "\<forall>t\<in>set (map serializeRow p2). t \<noteq> [] \<and> CHR '';'' \<notin> set t"
      using assms(2) serializeRow_props by auto
    show "joinStrings (map serializeRow p1) '';'' = joinStrings (map serializeRow p2) '';''"
      using assms(3) by (simp add: serializeRows_join)
  qed
  moreover have "inj_on serializeRow (set p1 \<union> set p2)"
    using assms(1,2) serializeRow_inj unfolding inj_on_def by blast
  ultimately show ?thesis by (simp add: inj_on_map_eq_map)
qed

lemma serializeRows_nobar:
  "\<forall>row\<in>set p. plainRow row \<Longrightarrow> CHR ''|'' \<notin> set (serializeRows p)"
  unfolding serializeRows_join
  using set_joinStrings[of "map serializeRow p" "'';''"] serializeRow_props(3) by fastforce

lemma joinTokens_nobar:
  "\<forall>t\<in>set xs. plainToken t \<Longrightarrow> CHR ''|'' \<notin> set (joinStrings xs '','')"
  using set_joinStrings[of xs "'',''"] unfolding plainToken_def by fastforce

lemma joinTokens_inj:
  assumes "\<forall>t\<in>set xs. plainToken t" "\<forall>t\<in>set ys. plainToken t"
    "joinStrings xs '','' = joinStrings ys '',''"
  shows "xs = ys"
proof -
  have 1: "\<forall>t\<in>set xs. t \<noteq> [] \<and> CHR '','' \<notin> set t"
    using assms(1) by (simp add: plainToken_def)
  have 2: "\<forall>t\<in>set ys. t \<noteq> [] \<and> CHR '','' \<notin> set t"
    using assms(2) by (simp add: plainToken_def)
  from joinStrings_inj[OF 1 2 assms(3)] show ?thesis .
qed

lemma serializeState_inj:
  assumes "plainState a" "plainState b" "serializeState a = serializeState b"
  shows "Pyramid a = Pyramid b \<and> Deck a = Deck b \<and> Waste a = Waste b"
proof -
  let ?P = "\<lambda>s. serializeRows (Pyramid s)" and ?D = "\<lambda>s. joinStrings (Deck s) '',''"
  and ?W = "\<lambda>s. joinStrings (Waste s) '',''"
  have nb: "CHR ''|'' \<notin> set (?P a)" "CHR ''|'' \<notin> set (?P b)" "CHR ''|'' \<notin> set (?D a)" "CHR ''|'' \<notin> set (?D b)"
    using assms(1,2) serializeRows_nobar joinTokens_nobar unfolding plainState_def by blast+
  from assms(3) have "?P a @ CHR ''|'' # (?D a @ CHR ''|'' # ?W a) = ?P b @ CHR ''|'' # (?D b @ CHR ''|'' # ?W b)"
    by (simp add: serializeState_def)
  from sep_split[OF nb(1,2) this] have p: "?P a = ?P b" and
    r: "?D a @ CHR ''|'' # ?W a = ?D b @ CHR ''|'' # ?W b" by simp_all
  from sep_split[OF nb(3,4) r] have d: "?D a = ?D b" and w: "?W a = ?W b" by simp_all
  from p assms(1,2) have "Pyramid a = Pyramid b"
    using serializeRows_inj unfolding plainState_def by blast
  moreover from d assms(1,2) have "Deck a = Deck b"
    using joinTokens_inj unfolding plainState_def by blast
  moreover from w assms(1,2) have "Waste a = Waste b"
    using joinTokens_inj unfolding plainState_def by blast
  ultimately show ?thesis by simp
qed

lemma cardState_plain: "cardState s \<Longrightarrow> plainState s"
  unfolding cardState_def plainState_def plainRow_def using wellFormedCard_plain by blast

text \<open>
  Claim C6: two states with the same pyramid, deck and waste have the same key, whatever
  their move lists are; and two states of well-formed cards with the same key have the
  same pyramid, deck and waste.
\<close>

theorem serializeState_key:
  "(Pyramid a = Pyramid b \<and> Deck a = Deck b \<and> Waste a = Waste b
      \<longrightarrow> serializeState a = serializeState b)
   \<and> (cardState a \<and> cardState b \<and> serializeState a = serializeState b
      \<longrightarrow> Pyramid a = Pyramid b \<and> Deck a = Deck b \<and> Waste a = Waste b)"
  using serializeState_inj[of a b] cardState_plain by (auto simp: serializeState_def)

theorem serializeState_key_witness:
  "serializeState \<lparr>Pyramid = [[''kh'']], Deck = [''2c''], Waste = [''3d''], Moves = []\<rparr>
     = serializeState \<lparr>Pyramid = [[''kh'']], Deck = [''2c''], Waste = [''3d''], Moves = [Recycle]\<rparr>
   \<and> serializeState \<lparr>Pyramid = [[''kh'']], Deck = [''2c''], Waste = [''3d''], Moves = []\<rparr>
     \<noteq> serializeState \<lparr>Pyramid = [[''kh'']], Deck = [''2c'', ''3d''], Waste = [], Moves = []\<rparr>"
proof -
  have wf: "wellFormedCard ''kh''" "wellFormedCard ''2c''" "wellFormedCard ''3d''"
    by (simp_all add: wellFormedCard_def standardDeck_def ranks_def suits_def toLower_def
        toLowerChar_def)
  have cs: "cardState \<lparr>Pyramid = [[''kh'']], Deck = [''2c''], Waste = [''3d''], Moves = []\<rparr>"
    "cardState \<lparr>Pyramid = [[''kh'']], Deck = [''2c'', ''3d''], Waste = [], Moves = []\<rparr>"
    using wf by (simp_all add: cardState_def)
  from serializeState_key[of "\<lparr>Pyramid = [[''kh'']], Deck = [''2c''], Waste = [''3d''], Moves = []\<rparr>"
      "\<lparr>Pyramid = [[''kh'']], Deck = [''2c''], Waste = [''3d''], Moves = [Recycle]\<rparr>"]
  have 1: "serializeState \<lparr>Pyramid = [[''kh'']], Deck = [''2c''], Waste = [''3d''], Moves = []\<rparr>
     = serializeState \<lparr>Pyramid = [[''kh'']], Deck = [''2c''], Waste = [''3d''], Moves = [Recycle]\<rparr>"
    by simp
  from serializeState_key[of "\<lparr>Pyramid = [[''kh'']], Deck = [''2c''], Waste = [''3d''], Moves = []\<rparr>"
      "\<lparr>Pyramid = [[''kh'']], Deck = [''2c'', ''3d''], Waste = [], Moves = []\<rparr>"] cs
  have 2: "serializeState \<lparr>Pyramid = [[''kh'']], Deck = [''2c''], Waste = [''3d''], Moves = []\<rparr>
     \<noteq> serializeState \<lparr>Pyramid = [[''kh'']], Deck = [''2c'', ''3d''], Waste = [], Moves = []\<rparr>"
    by auto
  from 1 2 show ?thesis by simp
qed

section \<open>The equations of the search and the depth bound\<close>

lemma solveState_Suc:
  "solveState (Suc d) st vis =
     (if isPyramidEmpty (Pyramid st) \<or> pruned vis st then Some (Inr (leafResult st, vis))
      else explore d (kids st) (leafResult st)
             (vis(serializeState st \<mapsto> countRemoved (Pyramid st))))"
  by (simp add: Let_def kids_def pruned_def leafResult_def split: sum.splits option.splits)

lemma explore_Inr:
  "explore d (Inr s # rest) best vis =
     (case solveState d s vis of
        None \<Rightarrow> None
      | Some (Inl e) \<Rightarrow> Some (Inl e)
      | Some (Inr (res, vis')) \<Rightarrow>
          if RemovedCount (better res best) = 28 then Some (Inr (better res best, vis'))
          else explore d rest (better res best) vis')"
  by (simp add: Let_def better_def split: option.splits sum.splits)

lemma solveStateNoPrune_Suc:
  "solveStateNoPrune (Suc d) st =
     (if isPyramidEmpty (Pyramid st) then Some (Inr (leafResult st))
      else exploreNoPrune d (kids st) (leafResult st))"
  by (simp add: Let_def kids_def leafResult_def split: sum.splits)

lemma exploreNoPrune_Inr:
  "exploreNoPrune d (Inr s # rest) best =
     (case solveStateNoPrune d s of
        None \<Rightarrow> None
      | Some (Inl e) \<Rightarrow> Some (Inl e)
      | Some (Inr res) \<Rightarrow>
          if RemovedCount (better res best) = 28 then Some (Inr (better res best))
          else exploreNoPrune d rest (better res best))"
  by (simp add: Let_def better_def split: option.splits sum.splits)

declare solveState.simps(2) [simp del] explore.simps(3) [simp del]

declare solveStateNoPrune.simps(2) [simp del] exploreNoPrune.simps(3) [simp del]

lemma explore_mono_step:
  assumes S: "\<And>s v r. solveState d s v = Some r \<Longrightarrow> solveState (Suc d) s v = Some r"
  shows "explore d cs best vis = Some r \<Longrightarrow> explore (Suc d) cs best vis = Some r"
proof (induction cs arbitrary: best vis)
  case Nil
  then show ?case by simp
next
  case (Cons c cs)
  show ?case
  proof (cases c)
    case (Inl e)
    with Cons.prems show ?thesis by simp
  next
    case (Inr s)
    from Cons.prems Inr obtain x where x: "solveState d s vis = Some x"
      by (auto simp: explore_Inr split: option.splits)
    from S[OF x] have x': "solveState (Suc d) s vis = Some x" .
    show ?thesis
    proof (cases x)
      case (Inl e)
      with Cons.prems Inr x x' show ?thesis by (auto simp: explore_Inr)
    next
      case xr: (Inr p)
      obtain res v' where p: "p = (res, v')" by (cases p)
      show ?thesis
      proof (cases "RemovedCount (better res best) = 28")
        case True
        with Cons.prems Inr x x' xr p show ?thesis by (simp add: explore_Inr)
      next
        case False
        with Cons.prems Inr x xr p have "explore d cs (better res best) v' = Some r"
          by (simp add: explore_Inr)
        from Cons.IH[OF this] False Inr x' xr p show ?thesis by (simp add: explore_Inr)
      qed
    qed
  qed
qed

lemma solveState_mono_step:
  "solveState d st vis = Some r \<Longrightarrow> solveState (Suc d) st vis = Some r"
proof (induction d arbitrary: st vis r)
  case 0
  then show ?case by simp
next
  case (Suc d)
  show ?case
  proof (cases "isPyramidEmpty (Pyramid st) \<or> pruned vis st")
    case True
    with Suc.prems show ?thesis by (simp add: solveState_Suc)
  next
    case False
    with Suc.prems have "explore d (kids st) (leafResult st)
             (vis(serializeState st \<mapsto> countRemoved (Pyramid st))) = Some r"
      by (simp add: solveState_Suc)
    from explore_mono_step[OF Suc.IH this] False show ?thesis
      by (simp add: solveState_Suc)
  qed
qed

lemma solveState_mono:
  assumes "solveState d st vis = Some r" "d \<le> d'"
  shows "solveState d' st vis = Some r"
  using assms(2,1) by (induction rule: dec_induct) (simp_all add: solveState_mono_step)

lemma explore_mono:
  assumes "explore d cs best vis = Some r" "d \<le> d'"
  shows "explore d' cs best vis = Some r"
  using assms(2,1)
  by (induction rule: dec_induct) (simp_all add: explore_mono_step solveState_mono_step)

section \<open>The relation holds of every result\<close>

lemma explore_explores:
  assumes S: "\<And>s v r. solveState d s v = Some r \<Longrightarrow> solves s v r"
  shows "explore d cs best vis = Some r \<Longrightarrow> explores cs best vis r"
proof (induction cs arbitrary: best vis)
  case Nil
  then show ?case by (auto intro: nil)
next
  case (Cons c cs)
  show ?case
  proof (cases c)
    case (Inl e)
    with Cons.prems show ?thesis by (auto intro: panic)
  next
    case (Inr s)
    from Cons.prems Inr obtain x where x: "solveState d s vis = Some x"
      by (auto simp: explore_Inr split: option.splits)
    show ?thesis
    proof (cases x)
      case (Inl e)
      with Cons.prems Inr x S[OF x] show ?thesis by (auto simp: explore_Inr intro: childPanic)
    next
      case xr: (Inr p)
      obtain res v' where p: "p = (res, v')" by (cases p)
      from S[OF x] xr p have sv: "solves s vis (Inr (res, v'))" by simp
      show ?thesis
      proof (cases "RemovedCount (better res best) = 28")
        case True
        with Cons.prems Inr x xr p have "r = Inr (better res best, v')" by (simp add: explore_Inr)
        with found[OF sv True] Inr show ?thesis by simp
      next
        case False
        with Cons.prems Inr x xr p have "explore d cs (better res best) v' = Some r"
          by (simp add: explore_Inr)
        from continue[OF sv False Cons.IH[OF this]] Inr show ?thesis by simp
      qed
    qed
  qed
qed

lemma solveState_solves: "solveState d st vis = Some r \<Longrightarrow> solves st vis r"
proof (induction d arbitrary: st vis r)
  case 0
  then show ?case by simp
next
  case (Suc d)
  show ?case
  proof (cases "isPyramidEmpty (Pyramid st) \<or> pruned vis st")
    case True
    with Suc.prems have "r = Inr (leafResult st, vis)" by (simp add: solveState_Suc)
    with leaf[OF True] show ?thesis by simp
  next
    case False
    with Suc.prems have "explore d (kids st) (leafResult st)
             (vis(serializeState st \<mapsto> countRemoved (Pyramid st))) = Some r"
      by (simp add: solveState_Suc)
    from node[OF False explore_explores[OF Suc.IH this]] show ?thesis .
  qed
qed

lemma vle_refl: "vle v v"
  by (simp add: vle_def)

lemma vle_trans: "vle a b \<Longrightarrow> vle b c \<Longrightarrow> vle a c"
  unfolding vle_def by (meson order_trans)

lemma vle_update:
  "\<not> pruned vis st \<Longrightarrow> vle vis (vis(serializeState st \<mapsto> countRemoved (Pyramid st)))"
  by (auto simp: vle_def pruned_def lvl_def split: option.splits)

lemma solves_vle:
  shows "solves st vis r \<Longrightarrow> (\<forall>res vis'. r = Inr (res, vis') \<longrightarrow> vle vis vis')"
    and "explores cs best vis r \<Longrightarrow> (\<forall>res vis'. r = Inr (res, vis') \<longrightarrow> vle vis vis')"
proof (induction rule: solves_explores.inducts)
  case (leaf st vis)
  then show ?case by (simp add: vle_refl)
next
  case (node st vis r)
  then show ?case using vle_update vle_trans by blast
next
  case (nil best vis)
  then show ?case by (simp add: vle_refl)
next
  case (panic e rest best vis)
  then show ?case by simp
next
  case (childPanic s vis e rest best)
  then show ?case by simp
next
  case (found s vis res vis' best rest)
  then show ?case by simp
next
  case (continue s vis res vis' best rest r)
  then show ?case using vle_trans by blast
qed

section \<open>The child states\<close>

lemma cleared_shape: "map length (cleared p r c) = map length p"
  by (cases "r < length p")
    (simp_all add: cleared_def map_update list_update_same_conv list_update_beyond not_less)

lemma cleared_length: "length (cleared p r c) = length p"
  by (simp add: cleared_def)

lemma cleared_row_length: "length (cleared p r c ! r') = length (p ! r')"
  by (cases "r' = r"; cases "r < length p")
    (simp_all add: cleared_def list_update_beyond not_less)

lemma clearSlot_cleared:
  "r < length p \<Longrightarrow> c < length (p ! r) \<Longrightarrow> clearSlot p r c = Inr (cleared p r c)"
  by (simp add: clearSlot_def cleared_def)

lemma kingChild_eq:
  "erow e < length (Pyramid st) \<Longrightarrow> ecol e < length (Pyramid st ! erow e) \<Longrightarrow>
   kingChild st e = Inr (st\<lparr>Pyramid := cleared (Pyramid st) (erow e) (ecol e),
       Moves := Moves st @ [RemoveKing (ecard e) (erow e) (ecol e)]\<rparr>)"
  by (simp add: kingChild_def clearSlot_cleared)

lemma wasteChild_eq:
  "erow e < length (Pyramid st) \<Longrightarrow> ecol e < length (Pyramid st ! erow e) \<Longrightarrow>
   wasteChild st w e = Inr (st\<lparr>Pyramid := cleared (Pyramid st) (erow e) (ecol e),
       Waste := butlast (Waste st),
       Moves := Moves st @ [RemoveWaste w (ecard e) (erow e) (ecol e)]\<rparr>)"
  by (simp add: wasteChild_def clearSlot_cleared)

lemma pairChild_eq:
  assumes "erow e1 < length (Pyramid st)" "ecol e1 < length (Pyramid st ! erow e1)"
    "erow e2 < length (Pyramid st)" "ecol e2 < length (Pyramid st ! erow e2)"
  shows "pairChild st (e1, e2) =
    Inr (st\<lparr>Pyramid := cleared (cleared (Pyramid st) (erow e1) (ecol e1)) (erow e2) (ecol e2),
       Moves := Moves st @ [RemovePair (ecard e1) (erow e1) (ecol e1) (ecard e2) (erow e2) (ecol e2)]\<rparr>)"
proof -
  have 1: "clearSlot (Pyramid st) (erow e1) (ecol e1) = Inr (cleared (Pyramid st) (erow e1) (ecol e1))"
    using assms(1,2) by (rule clearSlot_cleared)
  have 2: "clearSlot (cleared (Pyramid st) (erow e1) (ecol e1)) (erow e2) (ecol e2)
       = Inr (cleared (cleared (Pyramid st) (erow e1) (ecol e1)) (erow e2) (ecol e2))"
    using assms(3,4) by (intro clearSlot_cleared) (simp_all add: cleared_length cleared_row_length)
  show ?thesis by (simp add: pairChild_def 1 2)
qed

lemma set_sortExposed: "set (sortExposed ex) = set ex"
  by (simp add: sortExposed_def)

lemma slots_distinct_aux:
  "distinct (concat (map (\<lambda>r. map (Pair r) [0 ..< f r]) [0 ..< n]))
   \<and> (\<forall>x\<in>set (concat (map (\<lambda>r. map (Pair r) [0 ..< f r]) [0 ..< n])). fst x < n)"
proof (induction n)
  case 0
  then show ?case by simp
next
  case (Suc n)
  have "distinct (map (Pair n) [0 ..< f n])" by (simp add: distinct_map inj_on_def)
  with Suc show ?case by (auto simp: distinct_map)
qed

lemma slots_distinct: "distinct (slots p)"
  unfolding slots_def using slots_distinct_aux[of "\<lambda>r. length (p ! r)" "length p"] by simp

lemma exposedLoop_positions:
  "exposedLoop p ps = Inr ex \<Longrightarrow> distinct ps \<Longrightarrow>
     distinct (map epos ex) \<and> set (map epos ex) \<subseteq> set ps"
proof (induction ps arbitrary: ex)
  case Nil
  then show ?case by simp
next
  case (Cons a ps)
  obtain r c where a: "a = (r, c)" by (cases a)
  from Cons.prems(2) have d: "distinct ps" and na: "a \<notin> set ps" by simp_all
  show ?case
  proof (cases "isExposed p r c = Inr True")
    case True
    with Cons.prems(1) a obtain v ex' where
      ex': "exposedLoop p ps = Inr ex'"
      and ex: "ex = \<lparr>erow = r, ecol = c, ecard = p ! r ! c, evalue = v\<rparr> # ex'"
      by (auto split: sum.splits)
    from Cons.IH[OF ex' d] na a ex show ?thesis by (auto simp: epos_def)
  next
    case False
    with Cons.prems(1) a have "exposedLoop p ps = Inr ex"
      by (auto split: sum.splits bool.splits)
    from Cons.IH[OF this d] show ?thesis by auto
  qed
qed

lemma getExposedCards_distinct:
  "getExposedCards p = Inr ex \<Longrightarrow> distinct (map epos (sortExposed ex))"
proof -
  assume "getExposedCards p = Inr ex"
  then have d: "distinct (map epos ex)"
    using exposedLoop_positions[of p "slots p" ex] slots_distinct by (simp add: getExposedCards_def)
  then have "distinct ex" and "inj_on epos (set ex)" by (simp_all add: distinct_map)
  then show ?thesis by (simp add: distinct_map sortExposed_def)
qed

lemma pairsOf_distinct:
  "distinct (map f xs) \<Longrightarrow> (a, b) \<in> set (pairsOf xs) \<Longrightarrow> f a \<noteq> f b \<and> a \<in> set xs \<and> b \<in> set xs"
  by (induction xs) auto

lemma kingChildren_Inr:
  "Inr c \<in> set (kingChildren st ex) \<Longrightarrow> \<exists>e\<in>set ex. evalue e = 13 \<and> kingChild st e = Inr c"
  by (auto simp: kingChildren_def)

lemma pairChildren_Inr:
  "Inr c \<in> set (pairChildren st ex) \<Longrightarrow>
     \<exists>e1 e2. (e1, e2) \<in> set (pairsOf ex) \<and> evalue e1 + evalue e2 = 13 \<and> pairChild st (e1, e2) = Inr c"
  by (force simp: pairChildren_def)

lemma wasteChildren_Inr:
  "Inr c \<in> set (wasteChildren st ex) \<Longrightarrow>
     Waste st \<noteq> [] \<and> (\<exists>wv. getCardValue (last (Waste st)) = Inr wv
        \<and> (\<exists>e\<in>set ex. wv + evalue e = 13 \<and> wasteChild st (last (Waste st)) e = Inr c))"
  by (auto simp: wasteChildren_def Let_def split: if_splits sum.splits)

lemma drawChildren_Inr:
  assumes "Inr c \<in> set (drawChildren st)"
  shows "\<exists>drawn deck v. Deck st = drawn # deck \<and> getCardValue drawn = Inr v
       \<and> ((v = 13 \<and> c = st\<lparr>Deck := deck, Moves := Moves st @ [DrawKing drawn]\<rparr>)
          \<or> (v \<noteq> 13 \<and> c = st\<lparr>Deck := deck, Waste := Waste st @ [drawn],
                Moves := Moves st @ [DrawCard drawn]\<rparr>))"
proof -
  from assms obtain drawn deck where d: "Deck st = drawn # deck"
    by (cases "Deck st") (simp_all add: drawChildren_def)
  from assms d obtain v where v: "getCardValue drawn = Inr v"
    by (cases "getCardValue drawn") (simp_all add: drawChildren_def)
  from assms d v show ?thesis by (cases "v = 13") (simp_all add: drawChildren_def)
qed

lemma recycleChildren_Inr:
  "Inr c \<in> set (recycleChildren st) \<Longrightarrow>
     Deck st = [] \<and> Waste st \<noteq> []
     \<and> c = st\<lparr>Deck := rev (Waste st), Waste := [], Moves := Moves st @ [Recycle]\<rparr>"
  by (auto simp: recycleChildren_def split: if_splits)

lemma kids_Inr:
  assumes "Inr c \<in> set (kids st)"
  shows "\<exists>ex. getExposedCards (Pyramid st) = Inr ex
     \<and> (Inr c \<in> set (kingChildren st (sortExposed ex)) \<or> Inr c \<in> set (pairChildren st (sortExposed ex))
        \<or> Inr c \<in> set (wasteChildren st (sortExposed ex)) \<or> Inr c \<in> set (drawChildren st)
        \<or> Inr c \<in> set (recycleChildren st))"
  using assms by (auto simp: kids_def children_def split: sum.splits)

section \<open>Every child state is a move of the replay\<close>

lemma exposed_facts:
  assumes "getExposedCards (Pyramid st) = Inr ex" "e \<in> set (sortExposed ex)"
  shows "erow e < length (Pyramid st)" "ecol e < length (Pyramid st ! erow e)"
    "removable (Pyramid st) (erow e) (ecol e) (ecard e)" "getCardValue (ecard e) = Inr (evalue e)"
  using getExposedCards_sound[OF assms(1), of e] assms(2)
  by (auto simp: set_sortExposed removable_def)

lemma child_replay:
  assumes "Inr c \<in> set (kids st)"
  shows "\<exists>m. replayMove m st = Some c"
proof -
  from kids_Inr[OF assms] obtain ex where ex: "getExposedCards (Pyramid st) = Inr ex"
    and cases: "Inr c \<in> set (kingChildren st (sortExposed ex)) \<or> Inr c \<in> set (pairChildren st (sortExposed ex))
        \<or> Inr c \<in> set (wasteChildren st (sortExposed ex)) \<or> Inr c \<in> set (drawChildren st)
        \<or> Inr c \<in> set (recycleChildren st)" by blast
  note ef = exposed_facts[OF ex]
  from cases consider
    (king) "Inr c \<in> set (kingChildren st (sortExposed ex))"
    | (pair) "Inr c \<in> set (pairChildren st (sortExposed ex))"
    | (waste) "Inr c \<in> set (wasteChildren st (sortExposed ex))"
    | (draw) "Inr c \<in> set (drawChildren st)"
    | (recycle) "Inr c \<in> set (recycleChildren st)" by blast
  then show ?thesis
  proof cases
    case king
    then obtain e where e: "e \<in> set (sortExposed ex)" "evalue e = 13" "kingChild st e = Inr c"
      using kingChildren_Inr by blast
    from kingChild_eq[OF ef(1,2)[OF e(1)]] e(3)
    have c: "c = st\<lparr>Pyramid := cleared (Pyramid st) (erow e) (ecol e),
       Moves := Moves st @ [RemoveKing (ecard e) (erow e) (ecol e)]\<rparr>" by simp
    have "replayMove (RemoveKing (ecard e) (erow e) (ecol e)) st = Some c"
      using ef(3,4)[OF e(1)] e(2) c by simp
    then show ?thesis ..
  next
    case pair
    then obtain e1 e2 where p: "(e1, e2) \<in> set (pairsOf (sortExposed ex))"
      "evalue e1 + evalue e2 = 13" "pairChild st (e1, e2) = Inr c"
      using pairChildren_Inr by blast
    from pairsOf_distinct[OF getExposedCards_distinct[OF ex] p(1)]
    have ne: "epos e1 \<noteq> epos e2" and m1: "e1 \<in> set (sortExposed ex)" and m2: "e2 \<in> set (sortExposed ex)"
      by simp_all
    from pairChild_eq[OF ef(1,2)[OF m1] ef(1,2)[OF m2]] p(3)
    have c: "c = st\<lparr>Pyramid := cleared (cleared (Pyramid st) (erow e1) (ecol e1)) (erow e2) (ecol e2),
       Moves := Moves st @ [RemovePair (ecard e1) (erow e1) (ecol e1) (ecard e2) (erow e2) (ecol e2)]\<rparr>"
      by simp
    have s: "sumsTo13 (ecard e1) (ecard e2)"
      using ef(4)[OF m1] ef(4)[OF m2] p(2) by (simp add: sumsTo13_def)
    have "replayMove (RemovePair (ecard e1) (erow e1) (ecol e1) (ecard e2) (erow e2) (ecol e2)) st = Some c"
      using ef(3)[OF m1] ef(3)[OF m2] ne s c by (simp add: epos_def)
    then show ?thesis ..
  next
    case waste
    then obtain wv e where w: "Waste st \<noteq> []" "getCardValue (last (Waste st)) = Inr wv"
      "e \<in> set (sortExposed ex)" "wv + evalue e = 13" "wasteChild st (last (Waste st)) e = Inr c"
      using wasteChildren_Inr by blast
    from wasteChild_eq[OF ef(1,2)[OF w(3)]] w(5)
    have c: "c = st\<lparr>Pyramid := cleared (Pyramid st) (erow e) (ecol e), Waste := butlast (Waste st),
       Moves := Moves st @ [RemoveWaste (last (Waste st)) (ecard e) (erow e) (ecol e)]\<rparr>" by simp
    have s: "sumsTo13 (last (Waste st)) (ecard e)"
      using w(2,4) ef(4)[OF w(3)] by (simp add: sumsTo13_def)
    have "replayMove (RemoveWaste (last (Waste st)) (ecard e) (erow e) (ecol e)) st = Some c"
      using w(1) ef(3)[OF w(3)] s c by simp
    then show ?thesis ..
  next
    case draw
    from drawChildren_Inr[OF this] obtain drawn deck v where
      d: "Deck st = drawn # deck" "getCardValue drawn = Inr v"
      "(v = 13 \<and> c = st\<lparr>Deck := deck, Moves := Moves st @ [DrawKing drawn]\<rparr>)
          \<or> (v \<noteq> 13 \<and> c = st\<lparr>Deck := deck, Waste := Waste st @ [drawn],
                Moves := Moves st @ [DrawCard drawn]\<rparr>)" by blast
    show ?thesis
    proof (cases "v = 13")
      case True
      with d have "replayMove (DrawKing drawn) st = Some c" by simp
      then show ?thesis ..
    next
      case False
      with d have "replayMove (DrawCard drawn) st = Some c" by simp
      then show ?thesis ..
    qed
  next
    case recycle
    from recycleChildren_Inr[OF this] have "replayMove Recycle st = Some c" by simp
    then show ?thesis ..
  qed
qed

lemma reach_leaf: "reach st (leafResult st)"
proof -
  have "replay [] st = Some st" by simp
  then show ?thesis unfolding reach_def leafResult_def by fastforce
qed

lemma reach_step: "replayMove m st = Some c \<Longrightarrow> reach c res \<Longrightarrow> reach st res"
proof -
  assume m: "replayMove m st = Some c" and "reach c res"
  then obtain ms final where f: "replay ms c = Some final" "Moves final = ResultMoves res"
    "countRemoved (Pyramid final) = RemovedCount res" unfolding reach_def by blast
  from m f(1) have "replay (m # ms) st = Some final" by simp
  with f(2,3) show ?thesis unfolding reach_def by blast
qed

lemma solves_reach:
  shows "solves st vis r \<Longrightarrow> (\<forall>res v'. r = Inr (res, v') \<longrightarrow> reach st res)"
    and "explores cs best vis r \<Longrightarrow>
       (\<forall>res v'. r = Inr (res, v') \<longrightarrow> res = best \<or> (\<exists>c. Inr c \<in> set cs \<and> reach c res))"
proof (induction rule: solves_explores.inducts)
  case (leaf st vis)
  then show ?case by (simp add: reach_leaf)
next
  case (node st vis r)
  show ?case
  proof (intro allI impI)
    fix res v' assume "r = Inr (res, v')"
    with node.IH have "res = leafResult st \<or> (\<exists>c. Inr c \<in> set (kids st) \<and> reach c res)" by blast
    then show "reach st res"
    proof
      assume "res = leafResult st"
      then show ?thesis by (simp add: reach_leaf)
    next
      assume "\<exists>c. Inr c \<in> set (kids st) \<and> reach c res"
      then obtain c where c: "Inr c \<in> set (kids st)" "reach c res" by blast
      from child_replay[OF c(1)] obtain m where "replayMove m st = Some c" ..
      from reach_step[OF this c(2)] show ?thesis .
    qed
  qed
next
  case (nil best vis)
  then show ?case by simp
next
  case (panic e rest best vis)
  then show ?case by simp
next
  case (childPanic s vis e rest best)
  then show ?case by simp
next
  case (found s vis res vis' best rest)
  from found.IH have rs: "reach s res" by simp
  have b: "better res best = res \<or> better res best = best" by (simp add: better_def)
  show ?case
  proof (intro allI impI)
    fix res' v' assume "Inr (better res best, vis') = Inr (res', v')"
    then have "res' = better res best" by simp
    with b rs show "res' = best \<or> (\<exists>c. Inr c \<in> set (Inr s # rest) \<and> reach c res')"
      by (metis list.set_intros(1))
  qed
next
  case (continue s vis res vis' best rest r)
  from continue.IH(1) have rs: "reach s res" by simp
  have b: "better res best = res \<or> better res best = best" by (simp add: better_def)
  show ?case
  proof (intro allI impI)
    fix res' v' assume "r = Inr (res', v')"
    with continue.IH(2) have "res' = better res best \<or> (\<exists>c. Inr c \<in> set rest \<and> reach c res')"
      by blast
    with b rs show "res' = best \<or> (\<exists>c. Inr c \<in> set (Inr s # rest) \<and> reach c res')"
      by (metis list.set_intros(1) list.set_intros(2))
  qed
qed

lemma replayMove_shape:
  "replayMove m st = Some c \<Longrightarrow> map length (Pyramid c) = map length (Pyramid st)"
  by (cases m) (auto simp: cleared_shape split: if_splits)

lemma replay_shape:
  "replay ms st = Some final \<Longrightarrow> map length (Pyramid final) = map length (Pyramid st)"
proof (induction ms arbitrary: st)
  case Nil
  then show ?case by simp
next
  case (Cons m ms)
  then obtain c where c: "replayMove m st = Some c" "replay ms c = Some final"
    by (auto split: option.splits)
  from Cons.IH[OF c(2)] replayMove_shape[OF c(1)] show ?case by simp
qed

lemma replayMove_moves: "replayMove m st = Some c \<Longrightarrow> Moves c = Moves st @ [m]"
  by (cases m) (auto split: if_splits)

lemma replay_moves: "replay ms st = Some final \<Longrightarrow> Moves final = Moves st @ ms"
proof (induction ms arbitrary: st)
  case Nil
  then show ?case by simp
next
  case (Cons m ms)
  then obtain c where c: "replayMove m st = Some c" "replay ms c = Some final"
    by (auto split: option.splits)
  from Cons.IH[OF c(2)] replayMove_moves[OF c(1)] show ?case by simp
qed

lemma filter_all: "length (filter P xs) = length xs \<Longrightarrow> \<forall>x\<in>set xs. P x"
  by (metis length_filter_less less_irrefl)

lemma countRemoved_le: "countRemoved p \<le> int (length (concat p))"
  by (simp add: countRemoved_def)

lemma countRemoved_nonneg: "0 \<le> countRemoved p"
  by (simp add: countRemoved_def)

lemma countRemoved_full: "countRemoved p = int (length (concat p)) \<Longrightarrow> isPyramidEmpty p"
proof -
  assume "countRemoved p = int (length (concat p))"
  then have "length (filter (\<lambda>crd. crd = []) (concat p)) = length (concat p)"
    by (simp only: countRemoved_def of_nat_eq_iff)
  from filter_all[OF this] have "\<forall>x\<in>set (concat p). x = []" .
  then show ?thesis by (auto simp: isPyramidEmpty_def list_all_iff)
qed

lemma isPyramidEmpty_count: "isPyramidEmpty p \<Longrightarrow> countRemoved p = int (length (concat p))"
proof -
  assume "isPyramidEmpty p"
  then have "\<forall>x\<in>set (concat p). x = []" by (auto simp: isPyramidEmpty_def list_all_iff)
  then have "filter (\<lambda>crd. crd = []) (concat p) = concat p" by (simp add: filter_id_conv)
  then show ?thesis by (simp add: countRemoved_def)
qed

lemma tri_slots: "map length p = [1 ..< 8] \<Longrightarrow> length (concat p) = 28"
proof -
  assume a: "map length p = [1 ..< 8]"
  have "length (concat p) = sum_list (map length p)" by (simp add: length_concat)
  also have "\<dots> = sum_list [1 ..< 8]" using a by simp
  also have "\<dots> = 28" by code_simp
  finally show ?thesis .
qed

section \<open>The states of a deal\<close>

lemma cleared_rows:
  assumes "\<forall>row\<in>set p. set row \<subseteq> insert [] A"
  shows "\<forall>row\<in>set (cleared p r c). set row \<subseteq> insert [] A"
proof (cases "r < length p")
  case False
  then show ?thesis using assms by (simp add: cleared_def list_update_beyond not_less)
next
  case True
  then have "set (p ! r) \<subseteq> insert [] A" using assms by simp
  moreover have "set ((p ! r)[c := []]) \<subseteq> insert [] (set (p ! r))" by (rule set_update_subset_insert)
  ultimately have x: "set ((p ! r)[c := []]) \<subseteq> insert [] A" by blast
  have "set (cleared p r c) \<subseteq> insert ((p ! r)[c := []]) (set p)"
    unfolding cleared_def by (rule set_update_subset_insert)
  with x assms show ?thesis by blast
qed

lemma replayMove_pyramid:
  assumes "replayMove m st = Some c"
  shows "Pyramid c = Pyramid st \<or> (\<exists>r k. Pyramid c = cleared (Pyramid st) r k)
     \<or> (\<exists>r1 k1 r2 k2. Pyramid c = cleared (cleared (Pyramid st) r1 k1) r2 k2)"
proof (cases m)
  case (RemoveKing crd r k)
  with assms have "Pyramid c = cleared (Pyramid st) r k" by (auto split: if_splits)
  then show ?thesis by blast
next
  case (RemovePair crd1 r1 k1 crd2 r2 k2)
  with assms have "Pyramid c = cleared (cleared (Pyramid st) r1 k1) r2 k2" by (auto split: if_splits)
  then show ?thesis by blast
next
  case (RemoveWaste w crd r k)
  with assms have "Pyramid c = cleared (Pyramid st) r k" by (auto split: if_splits)
  then show ?thesis by blast
next
  case (DrawKing d)
  with assms show ?thesis by (auto split: if_splits)
next
  case (DrawCard d)
  with assms show ?thesis by (auto split: if_splits)
next
  case Recycle
  with assms show ?thesis by (auto split: if_splits)
qed

lemma replayMove_piles:
  assumes "replayMove m st = Some c"
  shows "(Deck c = Deck st \<and> (Waste c = Waste st \<or> Waste c = butlast (Waste st)))
     \<or> (Deck st \<noteq> [] \<and> Deck c = tl (Deck st)
          \<and> (Waste c = Waste st \<or> Waste c = Waste st @ [hd (Deck st)]))
     \<or> (Deck st = [] \<and> Deck c = rev (Waste st) \<and> Waste c = [])"
proof (cases m)
  case (RemoveKing crd r k)
  with assms show ?thesis by (auto split: if_splits)
next
  case (RemovePair crd1 r1 k1 crd2 r2 k2)
  with assms show ?thesis by (auto split: if_splits)
next
  case (RemoveWaste w crd r k)
  with assms show ?thesis by (auto split: if_splits)
next
  case (DrawKing d)
  with assms show ?thesis by (auto split: if_splits)
next
  case (DrawCard d)
  with assms show ?thesis by (auto split: if_splits)
next
  case Recycle
  with assms show ?thesis by (auto split: if_splits)
qed

lemma piles_good:
  assumes dk: "set d \<subseteq> A" and ws: "set w \<subseteq> A" and len: "length d + length w \<le> (n::nat)"
    and c: "(d' = d \<and> (w' = w \<or> w' = butlast w))
     \<or> (d \<noteq> [] \<and> d' = tl d \<and> (w' = w \<or> w' = w @ [hd d]))
     \<or> (d = [] \<and> d' = rev w \<and> w' = [])"
  shows "set d' \<subseteq> A \<and> set w' \<subseteq> A \<and> length d' + length w' \<le> n"
proof -
  have bl: "set (butlast w) \<subseteq> A"
  proof
    fix x assume "x \<in> set (butlast w)"
    then have "x \<in> set w" by (rule in_set_butlastD)
    with ws show "x \<in> A" by blast
  qed
  have tl: "set (tl d) \<subseteq> A" using dk by (cases d) auto
  have hd: "d \<noteq> [] \<Longrightarrow> hd d \<in> A" using dk by (cases d) auto
  have l1: "d \<noteq> [] \<Longrightarrow> length (tl d) + Suc (length w) = length d + length w"
    by (cases d) simp_all
  from c consider "d' = d \<and> w' = w" | "d' = d \<and> w' = butlast w" | "d \<noteq> [] \<and> d' = tl d \<and> w' = w"
    | "d \<noteq> [] \<and> d' = tl d \<and> w' = w @ [hd d]" | "d = [] \<and> d' = rev w \<and> w' = []" by blast
  then show ?thesis
  proof cases
    case 1 then show ?thesis using dk ws len by simp
  next
    case 2 then show ?thesis using dk bl len by simp
  next
    case 3 then show ?thesis using tl ws len by simp
  next
    case 4 then show ?thesis using tl ws hd len by (cases d) auto
  next
    case 5 then show ?thesis using ws len by simp
  qed
qed

lemma replayMove_good:
  assumes g: "goodState cards st" and m: "replayMove m st = Some c"
  shows "goodState cards c"
proof -
  from g have sh: "map length (Pyramid st) = [1 ..< 8]"
    and rows: "\<forall>row\<in>set (Pyramid st). set row \<subseteq> insert [] (set cards)"
    and dk: "set (Deck st) \<subseteq> set cards" and ws: "set (Waste st) \<subseteq> set cards"
    and len: "length (Deck st) + length (Waste st) \<le> 24"
    unfolding goodState_def by simp_all
  have sh': "map length (Pyramid c) = [1 ..< 8]" using replayMove_shape[OF m] sh by simp
  have rows': "\<forall>row\<in>set (Pyramid c). set row \<subseteq> insert [] (set cards)"
    using replayMove_pyramid[OF m] rows cleared_rows[OF rows] cleared_rows[OF cleared_rows[OF rows]]
    by metis
  from piles_good[OF dk ws len replayMove_piles[OF m]] sh' rows'
  show ?thesis unfolding goodState_def by simp
qed

lemma kids_good: "goodState cards st \<Longrightarrow> Inr c \<in> set (kids st) \<Longrightarrow> goodState cards c"
  using child_replay replayMove_good by blast

lemma tri_length: "map length p = [1 ..< 8] \<Longrightarrow> length p = 7"
proof -
  assume "map length p = [1 ..< 8]"
  then have "length (map length p) = length [1 ..< (8::nat)]" by (rule arg_cong)
  then show ?thesis by simp
qed

lemma tri_row: "map length p = [1 ..< 8] \<Longrightarrow> r < 7 \<Longrightarrow> length (p ! r) = Suc r"
proof -
  assume a: "map length p = [1 ..< 8]" and r: "r < 7"
  from r tri_length[OF a] have "r < length p" by simp
  then have "map length p ! r = length (p ! r)" by (rule nth_map)
  moreover have "[1 ..< 8] ! r = Suc r" using r by simp
  ultimately show ?thesis using a by simp
qed

lemma isExposed_total:
  assumes "map length p = [1 ..< 8]" "r < length p" "c < length (p ! r)"
  shows "\<exists>b. isExposed p r c = Inr b"
proof -
  have l: "length p = 7" using assms(1) by (rule tri_length)
  with assms have r: "r < 7" and c: "c < Suc r" by (simp_all add: tri_row)
  show ?thesis
  proof (cases "r = 6")
    case True
    then show ?thesis by (auto simp: isExposed_def l)
  next
    case False
    with r have r1: "Suc r < 7" by simp
    then have "length (p ! Suc r) = Suc (Suc r)" using assms(1) by (simp add: tri_row)
    with c r1 l have "slotAt p (r + 1) c = Inr (p ! Suc r ! c)"
      "slotAt p (r + 1) (c + 1) = Inr (p ! Suc r ! Suc c)"
      by (simp_all add: slotAt_def)
    then show ?thesis by (auto simp: isExposed_def)
  qed
qed

lemma exposedLoop_total:
  "\<forall>x\<in>set ps. \<exists>b. isExposed p (fst x) (snd x) = Inr b \<Longrightarrow> \<exists>ex. exposedLoop p ps = Inr ex"
proof (induction ps)
  case Nil
  then show ?case by simp
next
  case (Cons a ps)
  obtain r c where a: "a = (r, c)" by (cases a)
  from Cons.prems a obtain b where b: "isExposed p r c = Inr b" by auto
  from Cons obtain ex where ex: "exposedLoop p ps = Inr ex" by auto
  show ?case
  proof (cases b)
    case True
    with b have "p ! r ! c \<noteq> []" by (simp add: isExposed_True_occupied)
    then obtain v where "getCardValue (p ! r ! c) = Inr v" using getCardValue_nonempty by blast
    with a b True ex show ?thesis by simp
  next
    case False
    with a b ex show ?thesis by simp
  qed
qed

lemma getExposedCards_total:
  assumes "map length p = [1 ..< 8]"
  shows "\<exists>ex. getExposedCards p = Inr ex"
  unfolding getExposedCards_def
proof (rule exposedLoop_total, rule ballI)
  fix x assume "x \<in> set (slots p)"
  then have "fst x < length p \<and> snd x < length (p ! fst x)"
    using slots_iff[of "fst x" "snd x" p] by simp
  then show "\<exists>b. isExposed p (fst x) (snd x) = Inr b" using isExposed_total[OF assms] by blast
qed

lemma pairsOf_set: "(a, b) \<in> set (pairsOf xs) \<Longrightarrow> a \<in> set xs \<and> b \<in> set xs"
  by (induction xs) auto

lemma kids_no_panic:
  assumes g: "goodState cards st" and ne: "[] \<notin> set cards"
  shows "Inl e \<notin> set (kids st)"
proof -
  from g have sh: "map length (Pyramid st) = [1 ..< 8]"
    and dk: "set (Deck st) \<subseteq> set cards" and ws: "set (Waste st) \<subseteq> set cards"
    unfolding goodState_def by simp_all
  from getExposedCards_total[OF sh] obtain ex where ex: "getExposedCards (Pyramid st) = Inr ex" ..
  note ef = exposed_facts[OF ex]
  have k: "Inl e \<notin> set (kingChildren st (sortExposed ex))"
    using kingChild_eq[OF ef(1,2)] by (auto simp: kingChildren_def)
  have p: "Inl e \<notin> set (pairChildren st (sortExposed ex))"
  proof
    assume "Inl e \<in> set (pairChildren st (sortExposed ex))"
    then obtain e1 e2 where "(e1, e2) \<in> set (pairsOf (sortExposed ex))" "pairChild st (e1, e2) = Inl e"
      by (force simp: pairChildren_def)
    with pairsOf_set[of e1 e2 "sortExposed ex"] pairChild_eq[OF ef(1,2) ef(1,2), of e1 e2]
    show False by simp
  qed
  have w: "Inl e \<notin> set (wasteChildren st (sortExposed ex))"
  proof (cases "Waste st = []")
    case True
    then show ?thesis by (simp add: wasteChildren_def)
  next
    case False
    then have "last (Waste st) \<in> set cards" using ws by (meson last_in_set subsetD)
    with ne have "last (Waste st) \<noteq> []" by metis
    then obtain wv where wv: "getCardValue (last (Waste st)) = Inr wv"
      using getCardValue_nonempty by blast
    show ?thesis using False wv wasteChild_eq[OF ef(1,2)]
      by (auto simp: wasteChildren_def)
  qed
  have d: "Inl e \<notin> set (drawChildren st)"
  proof (cases "Deck st")
    case Nil
    then show ?thesis by (simp add: drawChildren_def)
  next
    case (Cons drawn deck)
    with dk ne have "drawn \<noteq> []" by auto
    then obtain v where "getCardValue drawn = Inr v" using getCardValue_nonempty by blast
    with Cons show ?thesis by (simp add: drawChildren_def)
  qed
  have r: "Inl e \<notin> set (recycleChildren st)" by (simp add: recycleChildren_def)
  from k p w d r show ?thesis by (simp add: kids_def ex children_def)
qed

lemma solves_Inr:
  assumes ne: "[] \<notin> set cards"
  shows "solves st vis r \<Longrightarrow> goodState cards st \<longrightarrow> (\<exists>x. r = Inr x)"
    and "explores cs best vis r \<Longrightarrow>
       (\<forall>c. Inr c \<in> set cs \<longrightarrow> goodState cards c) \<and> (\<forall>e. Inl e \<notin> set cs) \<longrightarrow> (\<exists>x. r = Inr x)"
proof (induction rule: solves_explores.inducts)
  case (leaf st vis)
  then show ?case by simp
next
  case (node st vis r)
  then show ?case using kids_good kids_no_panic[OF _ ne] by blast
next
  case (nil best vis)
  then show ?case by simp
next
  case (panic e rest best vis)
  then show ?case by auto
next
  case (childPanic s vis e rest best)
  then show ?case by auto
next
  case (found s vis res vis' best rest)
  then show ?case by simp
next
  case (continue s vis res vis' best rest r)
  then show ?case by auto
qed

section \<open>Valid decks and the measure\<close>

lemma sum_indicator:
  "distinct ys \<Longrightarrow> sum_list (map (\<lambda>y. if x = y then f y + 1 else f y) ys)
     = sum_list (map f ys) + (if x \<in> set ys then 1 else (0::nat))"
  by (induction ys) auto

lemma count_sum:
  "distinct ys \<Longrightarrow> sum_list (map (count_list xs) ys) = length (filter (\<lambda>x. x \<in> set ys) xs)"
proof (induction xs)
  case Nil
  then show ?case by simp
next
  case (Cons x xs)
  have "map (count_list (x # xs)) ys = map (\<lambda>y. if x = y then count_list xs y + 1 else count_list xs y) ys"
    by simp
  with sum_indicator[OF Cons.prems, of x "count_list xs"] Cons show ?case by simp
qed

lemma sum_list_ones: "\<forall>y\<in>set ys. f y = (1::nat) \<Longrightarrow> sum_list (map f ys) = length ys"
  by (induction ys) auto

lemma standardDeck_distinct: "distinct standardDeck"
  by code_simp

lemma standardDeck_length: "length standardDeck = 52"
  by code_simp

lemma valid_cards:
  assumes "checkDeck toLower cards = None"
  shows "length cards = 52" and "\<forall>c\<in>set cards. wellFormedCard c" and "[] \<notin> set cards"
proof -
  from assms have l: "length cards = 52"
    and c: "\<forall>c\<in>set standardDeck. count_list (map toLower cards) c = 1"
    by (simp_all add: checkDeck_iff)
  show "length cards = 52" by (rule l)
  have "sum_list (map (count_list (map toLower cards)) standardDeck) = 52"
    using sum_list_ones[OF c] standardDeck_length by simp
  then have "length (filter (\<lambda>x. x \<in> set standardDeck) (map toLower cards)) = length (map toLower cards)"
    using count_sum[OF standardDeck_distinct, of "map toLower cards"] l by simp
  from filter_all[OF this] show wf: "\<forall>c\<in>set cards. wellFormedCard c"
    by (simp add: wellFormedCard_def)
  show "[] \<notin> set cards"
  proof
    assume "[] \<in> set cards"
    with wf have "plainToken []" using wellFormedCard_plain by blast
    then show False by (simp add: plainToken_def)
  qed
qed

lemma buildRows_ok:
  "sum_list ns \<le> length cards \<Longrightarrow>
     \<exists>rows. buildRows ns cards = Inr rows \<and> map length rows = ns
       \<and> (\<forall>row\<in>set rows. set row \<subseteq> set cards)"
proof (induction ns arbitrary: cards)
  case Nil
  then show ?case by simp
next
  case (Cons n ns)
  then have n: "n \<le> length cards" and "sum_list ns \<le> length (drop n cards)" by simp_all
  from Cons.IH[OF this(2)] obtain rows where r: "buildRows ns (drop n cards) = Inr rows"
    "map length rows = ns" "\<forall>row\<in>set rows. set row \<subseteq> set (drop n cards)" by blast
  have "set (drop n cards) \<subseteq> set cards" by (rule set_drop_subset)
  with r(3) have "\<forall>row\<in>set rows. set row \<subseteq> set cards" by blast
  moreover have "set (take n cards) \<subseteq> set cards" by (rule set_take_subset)
  ultimately show ?case using n r(1,2) by simp
qed

lemma seven_rows: "[1, 2, 3, 4, 5, 6, 7] = [1 ..< (8::nat)]"
  by code_simp

lemma initial_good:
  assumes "length cards = 52"
  shows "\<exists>init. initialState cards = Inr init \<and> goodState cards init \<and> Moves init = []"
proof -
  have "sum_list [1, 2, 3, 4, 5, 6, 7] \<le> length cards" using assms by simp
  from buildRows_ok[OF this] obtain rows where r: "buildRows [1, 2, 3, 4, 5, 6, 7] cards = Inr rows"
    "map length rows = [1, 2, 3, 4, 5, 6, 7]" "\<forall>row\<in>set rows. set row \<subseteq> set cards" by auto
  let ?init = "\<lparr>Pyramid = rows, Deck = drop 28 cards, Waste = [], Moves = []\<rparr>"
  have i: "initialState cards = Inr ?init"
    unfolding initialState_def buildPyramid_def r(1) by simp
  have "set (drop 28 cards) \<subseteq> set cards" by (rule set_drop_subset)
  moreover have "\<forall>row\<in>set rows. set row \<subseteq> insert [] (set cards)" using r(3) by blast
  moreover have "map length rows = [1 ..< 8]" using r(2) unfolding seven_rows .
  ultimately have "goodState cards ?init"
    unfolding goodState_def using assms by simp
  with i show ?thesis by simp
qed

lemma good_rows:
  assumes "goodState cards st"
  shows "set (Pyramid st) \<subseteq> {row. set row \<subseteq> insert [] (set cards) \<and> length row \<le> 7}"
    and "length (Pyramid st) \<le> 7"
proof -
  from assms have sh: "map length (Pyramid st) = [1 ..< 8]"
    and rows: "\<forall>row\<in>set (Pyramid st). set row \<subseteq> insert [] (set cards)"
    unfolding goodState_def by simp_all
  show "length (Pyramid st) \<le> 7" using tri_length[OF sh] by simp
  show "set (Pyramid st) \<subseteq> {row. set row \<subseteq> insert [] (set cards) \<and> length row \<le> 7}"
  proof
    fix row assume a: "row \<in> set (Pyramid st)"
    then obtain i where i: "i < length (Pyramid st)" "row = Pyramid st ! i"
      by (metis in_set_conv_nth)
    with tri_length[OF sh] have "i < 7" by simp
    from tri_row[OF sh this] i have "length row \<le> 7" using \<open>i < 7\<close> by simp
    with a rows show "row \<in> {row. set row \<subseteq> insert [] (set cards) \<and> length row \<le> 7}" by simp
  qed
qed

lemma finite_stateKeys: "finite (stateKeys cards)"
proof -
  let ?R = "{row. set row \<subseteq> insert [] (set cards) \<and> length row \<le> 7}"
  let ?P = "{p. set p \<subseteq> ?R \<and> length p \<le> 7}"
  let ?D = "{d. set d \<subseteq> set cards \<and> length d \<le> 24}"
  let ?f = "\<lambda>(p, d, w). serializeRows p @ ''|'' @ joinStrings d '','' @ ''|'' @ joinStrings w '',''"
  have "finite ?R" by (rule finite_lists_length_le) simp
  then have "finite ?P" by (rule finite_lists_length_le)
  moreover have "finite ?D" by (rule finite_lists_length_le) simp
  ultimately have fin: "finite (?f ` (?P \<times> ?D \<times> ?D))" by simp
  have "stateKeys cards \<subseteq> ?f ` (?P \<times> ?D \<times> ?D)"
  proof
    fix k assume "k \<in> stateKeys cards"
    then obtain st where g: "goodState cards st" and k: "k = serializeState st"
      unfolding stateKeys_def by blast
    from g have "set (Deck st) \<subseteq> set cards" "set (Waste st) \<subseteq> set cards"
      "length (Deck st) \<le> 24" "length (Waste st) \<le> 24"
      unfolding goodState_def by simp_all
    with good_rows[OF g] have "(Pyramid st, Deck st, Waste st) \<in> ?P \<times> ?D \<times> ?D" by simp
    moreover have "k = ?f (Pyramid st, Deck st, Waste st)" by (simp add: k serializeState_def)
    ultimately show "k \<in> ?f ` (?P \<times> ?D \<times> ?D)" by (rule rev_image_eqI)
  qed
  with fin show ?thesis by (rule rev_finite_subset)
qed

lemma mu_mono: "vle v v' \<Longrightarrow> mu cards v' \<le> mu cards v"
  unfolding mu_def vle_def by (intro sum_mono diff_le_mono2) simp

lemma good_count: "goodState cards st \<Longrightarrow> countRemoved (Pyramid st) \<le> 28"
  using countRemoved_le[of "Pyramid st"] tri_slots[of "Pyramid st"] by (simp add: goodState_def)

lemma mu_decrease:
  assumes g: "goodState cards st" and np: "\<not> pruned vis st"
  shows "mu cards (vis(serializeState st \<mapsto> countRemoved (Pyramid st))) < mu cards vis"
proof -
  let ?k = "serializeState st" and ?c = "countRemoved (Pyramid st)"
  let ?v = "vis(?k \<mapsto> ?c)"
  have c: "0 \<le> ?c" "?c \<le> 28" using countRemoved_nonneg good_count[OF g] by simp_all
  have kin: "?k \<in> stateKeys cards" using g unfolding stateKeys_def by blast
  have le: "\<forall>k\<in>stateKeys cards. 29 - lvl (?v k) \<le> 29 - lvl (vis k)"
    using vle_update[OF np] unfolding vle_def by (simp add: diff_le_mono2)
  have "lvl (vis ?k) < lvl (Some ?c)"
    using np c by (auto simp: pruned_def lvl_def split: option.splits)
  moreover have "lvl (Some ?c) \<le> 29" using c by (simp add: lvl_def)
  ultimately have "29 - lvl (?v ?k) < 29 - lvl (vis ?k)" by simp
  with kin have "\<exists>k\<in>stateKeys cards. 29 - lvl (?v k) < 29 - lvl (vis k)" by blast
  with le show ?thesis unfolding mu_def
    by (intro sum_strict_mono_ex1 finite_stateKeys) simp_all
qed

section \<open>Termination and the result\<close>

lemma solveState_vle:
  "solveState d st vis = Some (Inr (res, vis')) \<Longrightarrow> vle vis vis'"
  using solves_vle(1)[OF solveState_solves] by blast

lemma explore_terminates:
  assumes S: "\<And>s v. goodState cards s \<Longrightarrow> mu cards v < m \<Longrightarrow> \<exists>d x. solveState d s v = Some x"
  shows "\<forall>c. Inr c \<in> set cs \<longrightarrow> goodState cards c \<Longrightarrow> mu cards v < m \<Longrightarrow>
     \<exists>d x. explore d cs best v = Some x"
proof (induction cs arbitrary: best v)
  case Nil
  have "explore 0 [] best v = Some (Inr (best, v))" by simp
  then show ?case by blast
next
  case (Cons c cs)
  show ?case
  proof (cases c)
    case (Inl e)
    then have "explore 0 (c # cs) best v = Some (Inl e)" by simp
    then show ?thesis by blast
  next
    case (Inr s)
    with Cons.prems(1) have "goodState cards s" by simp
    from S[OF this Cons.prems(2)] obtain d1 x where x: "solveState d1 s v = Some x" by blast
    show ?thesis
    proof (cases x)
      case (Inl e)
      with x Inr have "explore d1 (c # cs) best v = Some (Inl e)" by (simp add: explore_Inr)
      then show ?thesis by blast
    next
      case xr: (Inr p)
      obtain res v' where p: "p = (res, v')" by (cases p)
      show ?thesis
      proof (cases "RemovedCount (better res best) = 28")
        case True
        with x xr p Inr have "explore d1 (c # cs) best v = Some (Inr (better res best, v'))"
          by (simp add: explore_Inr)
        then show ?thesis by blast
      next
        case False
        from x xr p have "vle v v'" using solveState_vle by simp
        from mu_mono[OF this, of cards] Cons.prems(2) have lt: "mu cards v' < m" by simp
        from Cons.prems(1) have g: "\<forall>c. Inr c \<in> set cs \<longrightarrow> goodState cards c" by simp
        from Cons.IH[OF g lt]
        obtain d2 y where y: "explore d2 cs (better res best) v' = Some y" by blast
        have 1: "solveState (max d1 d2) s v = Some x" using x by (rule solveState_mono) simp
        have 2: "explore (max d1 d2) cs (better res best) v' = Some y" using y by (rule explore_mono) simp
        from 1 2 xr p False Inr have "explore (max d1 d2) (c # cs) best v = Some y"
          by (simp add: explore_Inr)
        then show ?thesis by blast
      qed
    qed
  qed
qed

lemma solveState_terminates_aux:
  "goodState cards st \<Longrightarrow> mu cards vis < m \<Longrightarrow> \<exists>d x. solveState d st vis = Some x"
proof (induction m arbitrary: st vis)
  case 0
  then show ?case by simp
next
  case (Suc m)
  show ?case
  proof (cases "isPyramidEmpty (Pyramid st) \<or> pruned vis st")
    case True
    then have "solveState (Suc 0) st vis = Some (Inr (leafResult st, vis))"
      by (simp add: solveState_Suc)
    then show ?thesis by blast
  next
    case False
    then have "\<not> pruned vis st" by simp
    from mu_decrease[OF Suc.prems(1) this] Suc.prems(2)
    have lt: "mu cards (vis(serializeState st \<mapsto> countRemoved (Pyramid st))) < m" by simp
    have "\<forall>c. Inr c \<in> set (kids st) \<longrightarrow> goodState cards c" using kids_good[OF Suc.prems(1)] by blast
    from explore_terminates[of cards m, OF Suc.IH this lt]
    obtain d x where "explore d (kids st) (leafResult st)
        (vis(serializeState st \<mapsto> countRemoved (Pyramid st))) = Some x" by blast
    with False have "solveState (Suc d) st vis = Some x" by (simp add: solveState_Suc)
    then show ?thesis by blast
  qed
qed

lemma solveState_terminates:
  "goodState cards st \<Longrightarrow> \<exists>d x. solveState d st vis = Some x"
  using solveState_terminates_aux[of cards st vis "Suc (mu cards vis)"] by simp

lemma solveState_good_result:
  assumes g: "goodState cards st" and ne: "[] \<notin> set cards"
  shows "\<exists>d res vis'. solveState d st vis = Some (Inr (res, vis'))"
proof -
  from solveState_terminates[OF g] obtain d x where x: "solveState d st vis = Some x" by blast
  from solves_Inr(1)[OF ne solveState_solves[OF x]] g obtain y where "x = Inr y" by blast
  with x show ?thesis by (cases y) auto
qed

lemma solveState_unique:
  "solveState d st vis = Some x \<Longrightarrow> solveState d' st vis = Some y \<Longrightarrow> x = y"
  using solveState_mono[of d st vis x "max d d'"] solveState_mono[of d' st vis y "max d d'"] by simp

lemma result_replay:
  assumes "solveState d st vis = Some (Inr (res, vis'))" "map length (Pyramid st) = [1 ..< 8]"
  shows "\<exists>ms final. replay ms st = Some final \<and> ResultMoves res = Moves st @ ms
     \<and> countRemoved (Pyramid final) = RemovedCount res
     \<and> 0 \<le> RemovedCount res \<and> RemovedCount res \<le> 28
     \<and> (RemovedCount res = 28 \<longrightarrow> isPyramidEmpty (Pyramid final))"
proof -
  from solves_reach(1)[OF solveState_solves[OF assms(1)]] have "reach st res" by blast
  then obtain ms final where f: "replay ms st = Some final" "Moves final = ResultMoves res"
    "countRemoved (Pyramid final) = RemovedCount res" unfolding reach_def by blast
  from replay_shape[OF f(1)] assms(2) have sh: "map length (Pyramid final) = [1 ..< 8]" by simp
  from tri_slots[OF sh] have n: "length (concat (Pyramid final)) = 28" .
  have "RemovedCount res \<le> 28" using countRemoved_le[of "Pyramid final"] n f(3) by simp
  moreover have "0 \<le> RemovedCount res" using countRemoved_nonneg[of "Pyramid final"] f(3) by simp
  moreover have "RemovedCount res = 28 \<longrightarrow> isPyramidEmpty (Pyramid final)"
    using countRemoved_full[of "Pyramid final"] n f(3) by simp
  moreover have "ResultMoves res = Moves st @ ms" using replay_moves[OF f(1)] f(2) by simp
  ultimately show ?thesis using f(1,3) by blast
qed

lemma solve_valid:
  assumes "checkDeck toLower cards = None"
  shows "\<exists>depth res initial final.
     initialState cards = Inr initial
     \<and> solvePyramidSolitaire depth cards = Some (Inr res)
     \<and> (\<forall>depth' r. solvePyramidSolitaire depth' cards = Some r \<longrightarrow> r = Inr res)
     \<and> 0 \<le> RemovedCount res \<and> RemovedCount res \<le> 28
     \<and> replay (ResultMoves res) initial = Some final
     \<and> countRemoved (Pyramid final) = RemovedCount res
     \<and> (RemovedCount res = 28 \<longrightarrow> isPyramidEmpty (Pyramid final))"
proof -
  note v = valid_cards[OF assms]
  from initial_good[OF v(1)] obtain init where i: "initialState cards = Inr init"
    "goodState cards init" "Moves init = []" by blast
  from solveState_good_result[OF i(2) v(3)] obtain d res vis' where
    s: "solveState d init Map.empty = Some (Inr (res, vis'))" by blast
  have sol: "solvePyramidSolitaire d cards = Some (Inr res)"
    by (simp add: solvePyramidSolitaire_def i(1) s)
  have uniq: "\<forall>depth' r. solvePyramidSolitaire depth' cards = Some r \<longrightarrow> r = Inr res"
  proof (intro allI impI)
    fix depth' r assume a: "solvePyramidSolitaire depth' cards = Some r"
    then obtain y where y: "solveState depth' init Map.empty = Some y"
      by (auto simp: solvePyramidSolitaire_def i(1) split: option.splits)
    from solveState_unique[OF s y] have "y = Inr (res, vis')" by simp
    with a y show "r = Inr res" by (simp add: solvePyramidSolitaire_def i(1))
  qed
  from i(2) have sh: "map length (Pyramid init) = [1 ..< 8]" by (simp add: goodState_def)
  from result_replay[OF s sh] i(3) obtain final where
    "replay (ResultMoves res) init = Some final" "countRemoved (Pyramid final) = RemovedCount res"
    "0 \<le> RemovedCount res" "RemovedCount res \<le> 28"
    "RemovedCount res = 28 \<longrightarrow> isPyramidEmpty (Pyramid final)" by auto
  with i(1) sol uniq show ?thesis by blast
qed

lemma cardSequence_valid: "checkDeck toLower cardSequence = None"
  using cardSequence_counts by (simp add: checkDeck_iff list_all_iff)

text \<open>
  Claim C1: for every valid 52-card deck the search returns: some depth of calls
  suffices, the call does not panic, every depth at which it returns gives the same
  result, and the count of the result is between 0 and 28.
\<close>

theorem solve_terminates_in_bounds:
  "checkDeck toLower cards = None \<Longrightarrow>
   \<exists>depth res. solvePyramidSolitaire depth cards = Some (Inr res)
     \<and> (\<forall>depth' r. solvePyramidSolitaire depth' cards = Some r \<longrightarrow> r = Inr res)
     \<and> 0 \<le> RemovedCount res \<and> RemovedCount res \<le> 28"
  using solve_valid by blast

theorem solve_terminates_in_bounds_witness:
  "\<exists>depth res. solvePyramidSolitaire depth cardSequence = Some (Inr res)
     \<and> 0 \<le> RemovedCount res \<and> RemovedCount res \<le> 28"
  using solve_terminates_in_bounds[OF cardSequence_valid] by blast

section \<open>The moves of the result are legal\<close>

lemma removable_exposedSlot:
  assumes sh: "map length p = [1 ..< 8]" and rm: "removable p r c crd"
  shows "exposedSlot p r c \<and> p ! r ! c = crd"
proof -
  from rm have r: "r < length p" and c: "c < length (p ! r)" and crd: "p ! r ! c = crd"
    and ex: "isExposed p r c = Inr True" unfolding removable_def by simp_all
  have len: "length p = 7" using tri_length[OF sh] .
  with r have r7: "r < 7" by simp
  from tri_row[OF sh r7] c have cr: "c \<le> r" by simp
  have tri: "triangle p" unfolding triangle_def seven_rows using sh .
  from ex have occ: "p ! r ! c \<noteq> []" by (rule isExposed_True_occupied)
  have beneath: "r = 6 \<or> (p ! (r + 1) ! c = [] \<and> p ! (r + 1) ! (c + 1) = [])"
  proof (cases "r = 6")
    case True
    then show ?thesis by simp
  next
    case False
    with r7 have r1: "r + 1 < 7" by simp
    from tri_row[OF sh r1] have l1: "length (p ! (r + 1)) = Suc (r + 1)" .
    have s1: "slotAt p (r + 1) c = Inr (p ! (r + 1) ! c)"
      using r1 len l1 cr by (simp add: slotAt_def)
    have s2: "slotAt p (r + 1) (c + 1) = Inr (p ! (r + 1) ! (c + 1))"
      using r1 len l1 cr by (simp add: slotAt_def)
    from ex False len occ show ?thesis
      unfolding isExposed_def s1 s2 by (simp split: if_splits)
  qed
  from tri r7 cr occ beneath crd show ?thesis
    unfolding exposedSlot_def occupiedSlot_def by simp
qed

lemma suits_single: "suit \<in> set suits \<Longrightarrow> \<exists>x. suit = [x]"
  unfolding suits_def by auto

lemma wellFormed_value:
  assumes "wellFormedCard crd"
  shows "getCardValue crd = Inr (cardValue crd)"
proof -
  from assms have "toLower crd \<in> set standardDeck" by (simp add: wellFormedCard_def)
  then obtain rank suit where rs: "rank \<in> set ranks" "suit \<in> set suits" "toLower crd = rank @ suit"
    unfolding standardDeck_def by auto
  from suits_single[OF rs(2)] obtain x where "suit = [x]" by blast
  with rs(3) have "butlast (toLower crd) = rank" by simp
  then have "cardValue crd = rankValue rank" by (simp add: cardValue_def)
  with getCardValue_wellFormed[OF rs] show ?thesis by simp
qed

lemma sumsTo13_value:
  assumes "wellFormedCard a" "wellFormedCard b" "sumsTo13 a b"
  shows "cardValue a + cardValue b = 13"
  using assms(3) wellFormed_value[OF assms(1)] wellFormed_value[OF assms(2)]
  by (simp add: sumsTo13_def)

lemma good_slot_card:
  assumes g: "goodState cards st" and rm: "removable (Pyramid st) r c crd"
  shows "crd \<in> set cards"
proof -
  from rm have r: "r < length (Pyramid st)" and c: "c < length (Pyramid st ! r)"
    and crd: "Pyramid st ! r ! c = crd" and ex: "isExposed (Pyramid st) r c = Inr True"
    unfolding removable_def by simp_all
  from g have rows: "\<forall>row\<in>set (Pyramid st). set row \<subseteq> insert [] (set cards)"
    unfolding goodState_def by simp
  from r have "Pyramid st ! r \<in> set (Pyramid st)" by simp
  with rows have "set (Pyramid st ! r) \<subseteq> insert [] (set cards)" by blast
  moreover from c have "Pyramid st ! r ! c \<in> set (Pyramid st ! r)" by simp
  ultimately have "Pyramid st ! r ! c \<in> insert [] (set cards)" by blast
  with isExposed_True_occupied[OF ex] crd show ?thesis by simp
qed

lemma replayMove_playMove:
  assumes g: "goodState cards st" and wf: "\<forall>c\<in>set cards. wellFormedCard c"
    and m: "replayMove m st = Some st'"
  shows "playMove m (Pyramid st, Deck st, Waste st) = Some (Pyramid st', Deck st', Waste st')"
proof -
  from g have sh: "map length (Pyramid st) = [1 ..< 8]"
    and dk: "set (Deck st) \<subseteq> set cards" and ws: "set (Waste st) \<subseteq> set cards"
    unfolding goodState_def by simp_all
  note ex = removable_exposedSlot[OF sh]
  note mem = good_slot_card[OF g]
  show ?thesis
  proof (cases m)
    case (RemoveKing crd r c)
    with m have rm: "removable (Pyramid st) r c crd" and k: "getCardValue crd = Inr 13"
      and st': "st' = st\<lparr>Pyramid := cleared (Pyramid st) r c, Moves := Moves st @ [RemoveKing crd r c]\<rparr>"
      by (auto split: if_splits)
    from mem[OF rm] wf have "wellFormedCard crd" by blast
    from wellFormed_value[OF this] k have "cardValue crd = 13" by simp
    with ex[OF rm] st' RemoveKing show ?thesis by simp
  next
    case (RemovePair crd1 r1 c1 crd2 r2 c2)
    with m have rm1: "removable (Pyramid st) r1 c1 crd1" and rm2: "removable (Pyramid st) r2 c2 crd2"
      and ne: "(r1, c1) \<noteq> (r2, c2)" and s: "sumsTo13 crd1 crd2"
      and st': "st' = st\<lparr>Pyramid := cleared (cleared (Pyramid st) r1 c1) r2 c2,
                   Moves := Moves st @ [RemovePair crd1 r1 c1 crd2 r2 c2]\<rparr>"
      by (auto split: if_splits)
    from mem[OF rm1] mem[OF rm2] wf have "wellFormedCard crd1" "wellFormedCard crd2" by blast+
    from sumsTo13_value[OF this s] have "cardValue crd1 + cardValue crd2 = 13" .
    with ex[OF rm1] ex[OF rm2] ne st' RemovePair show ?thesis by simp
  next
    case (RemoveWaste topWaste crd r c)
    with m have w: "Waste st \<noteq> []" "last (Waste st) = topWaste"
      and rm: "removable (Pyramid st) r c crd" and s: "sumsTo13 topWaste crd"
      and st': "st' = st\<lparr>Pyramid := cleared (Pyramid st) r c, Waste := butlast (Waste st),
                   Moves := Moves st @ [RemoveWaste topWaste crd r c]\<rparr>"
      by (auto split: if_splits)
    from w have "topWaste \<in> set (Waste st)" using last_in_set by blast
    with ws wf have "wellFormedCard topWaste" by blast
    moreover from mem[OF rm] wf have "wellFormedCard crd" by blast
    ultimately have "cardValue topWaste + cardValue crd = 13" using sumsTo13_value s by blast
    with ex[OF rm] w st' RemoveWaste show ?thesis by simp
  next
    case (DrawKing drawn)
    with m have d: "Deck st \<noteq> []" "hd (Deck st) = drawn" and k: "getCardValue drawn = Inr 13"
      and st': "st' = st\<lparr>Deck := tl (Deck st), Moves := Moves st @ [DrawKing drawn]\<rparr>"
      by (auto split: if_splits)
    from d have "drawn \<in> set (Deck st)" using hd_in_set by blast
    with dk wf have "wellFormedCard drawn" by blast
    from wellFormed_value[OF this] k have "cardValue drawn = 13" by simp
    with d st' DrawKing show ?thesis by simp
  next
    case (DrawCard drawn)
    with m have d: "Deck st \<noteq> []" "hd (Deck st) = drawn" and k: "getCardValue drawn \<noteq> Inr 13"
      and st': "st' = st\<lparr>Deck := tl (Deck st), Waste := Waste st @ [drawn],
                   Moves := Moves st @ [DrawCard drawn]\<rparr>"
      by (auto split: if_splits)
    from d have "drawn \<in> set (Deck st)" using hd_in_set by blast
    with dk wf have "wellFormedCard drawn" by blast
    from wellFormed_value[OF this] k have "cardValue drawn \<noteq> 13" by simp
    with d st' DrawCard show ?thesis by simp
  next
    case Recycle
    with m show ?thesis by (auto split: if_splits)
  qed
qed

lemma replay_playMoves:
  assumes wf: "\<forall>c\<in>set cards. wellFormedCard c"
  shows "goodState cards st \<Longrightarrow> replay ms st = Some final \<Longrightarrow>
     playMoves ms (Pyramid st, Deck st, Waste st) = Some (Pyramid final, Deck final, Waste final)"
proof (induction ms arbitrary: st)
  case Nil
  then show ?case by simp
next
  case (Cons m ms)
  from Cons.prems(2) obtain c where c: "replayMove m st = Some c" "replay ms c = Some final"
    by (auto split: option.splits)
  from replayMove_playMove[OF Cons.prems(1) wf c(1)]
  have 1: "playMove m (Pyramid st, Deck st, Waste st) = Some (Pyramid c, Deck c, Waste c)" .
  from Cons.IH[OF replayMove_good[OF Cons.prems(1) c(1)] c(2)] 1 show ?case by simp
qed

lemma initial_dealt:
  assumes "length cards = 52" "initialState cards = Inr init"
  shows "(Pyramid init, Deck init, Waste init) = dealt cards"
proof -
  have "buildPyramid cards =
     Inr (map (\<lambda>r. take (r + 1) (drop (r * (r + 1) div 2) cards)) [0, 1, 2, 3, 4, 5, 6])"
    using assms(1) by (simp add: buildPyramid_def) (simp add: numeral_2_eq_2)
  with assms(2) show ?thesis by (auto simp: initialState_def dealt_def)
qed

lemma solve_playMoves:
  assumes "checkDeck toLower cards = None"
  shows "\<exists>depth res pyramid deck waste.
     solvePyramidSolitaire depth cards = Some (Inr res)
     \<and> playMoves (ResultMoves res) (dealt cards) = Some (pyramid, deck, waste)
     \<and> RemovedCount res = int (length (filter (\<lambda>crd. crd = []) (concat pyramid)))
     \<and> (RemovedCount res = 28 \<longrightarrow> (\<forall>row\<in>set pyramid. \<forall>crd\<in>set row. crd = []))"
proof -
  note v = valid_cards[OF assms]
  from solve_valid[OF assms] obtain depth res initial final where
    i: "initialState cards = Inr initial"
    and s: "solvePyramidSolitaire depth cards = Some (Inr res)"
    and r: "replay (ResultMoves res) initial = Some final"
    and n: "countRemoved (Pyramid final) = RemovedCount res"
    and e: "RemovedCount res = 28 \<longrightarrow> isPyramidEmpty (Pyramid final)" by blast
  from initial_good[OF v(1)] i have g: "goodState cards initial" by simp
  from replay_playMoves[OF v(2) g r] initial_dealt[OF v(1) i]
  have p: "playMoves (ResultMoves res) (dealt cards) = Some (Pyramid final, Deck final, Waste final)"
    by simp
  have c: "RemovedCount res = int (length (filter (\<lambda>crd. crd = []) (concat (Pyramid final))))"
    using n by (simp add: countRemoved_def)
  have "RemovedCount res = 28 \<longrightarrow> (\<forall>row\<in>set (Pyramid final). \<forall>crd\<in>set row. crd = [])"
    using e by (simp add: isPyramidEmpty_def list_all_iff)
  with s p c show ?thesis by blast
qed

text \<open>
  Claim C2: for every valid 52-card deck the move list of the result replays from the
  initial position of the deal, and every move is legal where it is applied, in the
  words of the specification: a removal takes an occupied, exposed slot (a card on the
  last row or with both slots beneath it empty), a pair and a waste pairing sum to 13.
  The replay ends in a pyramid with as many empty slots as the result counts, and when
  the count is 28 every slot of that pyramid is empty.
\<close>

theorem solve_moves_replay:
  "checkDeck toLower cards = None \<Longrightarrow>
   \<exists>depth res pyramid deck waste.
     solvePyramidSolitaire depth cards = Some (Inr res)
     \<and> playMoves (ResultMoves res) (dealt cards) = Some (pyramid, deck, waste)
     \<and> RemovedCount res = int (length (filter (\<lambda>crd. crd = []) (concat pyramid)))
     \<and> (RemovedCount res = 28 \<longrightarrow> (\<forall>row\<in>set pyramid. \<forall>crd\<in>set row. crd = []))"
  using solve_playMoves by blast

theorem solve_moves_replay_witness:
  "\<exists>depth res pyramid deck waste.
     solvePyramidSolitaire depth cardSequence = Some (Inr res)
     \<and> playMoves (ResultMoves res) (dealt cardSequence) = Some (pyramid, deck, waste)
     \<and> RemovedCount res = int (length (filter (\<lambda>crd. crd = []) (concat pyramid)))"
  using solve_moves_replay[OF cardSequence_valid] by blast

section \<open>Keys of the states of a deal\<close>

lemma serializeState_proj: "proj a = proj b \<Longrightarrow> serializeState a = serializeState b"
  by (simp add: proj_def serializeState_def)

lemma kingChild_proj:
  "map_sum id proj (kingChild (st\<lparr>Moves := m\<rparr>) e) = map_sum id proj (kingChild st e)"
  by (simp add: kingChild_def proj_def split: sum.splits)

lemma pairChild_proj:
  "map_sum id proj (pairChild (st\<lparr>Moves := m\<rparr>) ij) = map_sum id proj (pairChild st ij)"
  by (simp add: pairChild_def proj_def split: sum.splits)

lemma wasteChild_proj:
  "map_sum id proj (wasteChild (st\<lparr>Moves := m\<rparr>) w e) = map_sum id proj (wasteChild st w e)"
  by (simp add: wasteChild_def proj_def split: sum.splits)

lemma kingChildren_proj:
  "map (map_sum id proj) (kingChildren (st\<lparr>Moves := m\<rparr>) ex) = map (map_sum id proj) (kingChildren st ex)"
  by (simp add: kingChildren_def kingChild_proj)

lemma pairChildren_proj:
  "map (map_sum id proj) (pairChildren (st\<lparr>Moves := m\<rparr>) ex) = map (map_sum id proj) (pairChildren st ex)"
  by (simp add: pairChildren_def pairChild_proj)

lemma wasteChildren_proj:
  "map (map_sum id proj) (wasteChildren (st\<lparr>Moves := m\<rparr>) ex) = map (map_sum id proj) (wasteChildren st ex)"
  by (simp add: wasteChildren_def wasteChild_proj Let_def split: sum.splits)

lemma drawChildren_proj:
  "map (map_sum id proj) (drawChildren (st\<lparr>Moves := m\<rparr>)) = map (map_sum id proj) (drawChildren st)"
  by (simp add: drawChildren_def proj_def split: list.splits sum.splits)

lemma recycleChildren_proj:
  "map (map_sum id proj) (recycleChildren (st\<lparr>Moves := m\<rparr>)) = map (map_sum id proj) (recycleChildren st)"
  by (simp add: recycleChildren_def proj_def)

lemma kids_proj:
  "map (map_sum id proj) (kids (st\<lparr>Moves := m\<rparr>)) = map (map_sum id proj) (kids st)"
  by (simp add: kids_def children_def kingChildren_proj pairChildren_proj wasteChildren_proj
      drawChildren_proj recycleChildren_proj split: sum.splits)

lemma kids_same:
  assumes "proj t = proj st" "Inr c \<in> set (kids t)"
  shows "\<exists>c'. Inr c' \<in> set (kids st) \<and> serializeState c' = serializeState c"
proof -
  from assms(1) have "t = st\<lparr>Moves := Moves t\<rparr>" by (simp add: proj_def)
  then have "map (map_sum id proj) (kids t) = map (map_sum id proj) (kids st)"
    using kids_proj[where st=st and m="Moves t"] by simp
  moreover from assms(2) have "Inr (proj c) \<in> set (map (map_sum id proj) (kids t))" by force
  ultimately have "Inr (proj c) \<in> set (map (map_sum id proj) (kids st))" by simp
  then obtain x where x: "x \<in> set (kids st)" "map_sum id proj x = Inr (proj c)" by auto
  from x(2) obtain c' where "x = Inr c'" "proj c' = proj c" by (cases x) auto
  with x(1) serializeState_proj show ?thesis by blast
qed

lemma good_plain:
  assumes wf: "\<forall>c\<in>set cards. wellFormedCard c" and g: "goodState cards st"
  shows "plainState st"
proof -
  from g have sh: "map length (Pyramid st) = [1 ..< 8]"
    and rows: "\<forall>row\<in>set (Pyramid st). set row \<subseteq> insert [] (set cards)"
    and dk: "set (Deck st) \<subseteq> set cards" and ws: "set (Waste st) \<subseteq> set cards"
    unfolding goodState_def by simp_all
  have pt: "\<forall>c\<in>set cards. plainToken c" using wf wellFormedCard_plain by blast
  have "\<forall>row\<in>set (Pyramid st). plainRow row"
  proof
    fix row assume a: "row \<in> set (Pyramid st)"
    then obtain i where i: "i < length (Pyramid st)" "row = Pyramid st ! i"
      by (metis in_set_conv_nth)
    with tri_length[OF sh] have "i < 7" by simp
    from tri_row[OF sh this] i have "row \<noteq> []" by auto
    moreover from a rows pt have "\<forall>crd\<in>set row. crd = [] \<or> plainToken crd" by blast
    ultimately show "plainRow row" by (simp add: plainRow_def)
  qed
  with dk ws pt show ?thesis unfolding plainState_def by blast
qed

lemma key_inj:
  assumes wf: "\<forall>c\<in>set cards. wellFormedCard c"
    and "goodState cards a" "goodState cards b" "serializeState a = serializeState b"
  shows "proj a = proj b"
  using serializeState_inj[OF good_plain[OF wf assms(2)] good_plain[OF wf assms(3)] assms(4)]
  by (simp add: proj_def)

lemma proj_count: "proj a = proj b \<Longrightarrow> countRemoved (Pyramid a) = countRemoved (Pyramid b)"
  by (simp add: proj_def)

lemma sound_pruned:
  "sound cards vis \<Longrightarrow> goodState cards st \<Longrightarrow> pruned vis st \<longleftrightarrow> serializeState st \<in> dom vis"
  by (auto simp: sound_def pruned_def split: option.splits)

lemma sound_update:
  assumes wf: "\<forall>c\<in>set cards. wellFormedCard c" and s: "sound cards vis" and g: "goodState cards st"
  shows "sound cards (vis(serializeState st \<mapsto> countRemoved (Pyramid st)))"
  unfolding sound_def
proof (intro allI impI)
  fix t v
  assume a: "goodState cards t \<and> (vis(serializeState st \<mapsto> countRemoved (Pyramid st))) (serializeState t) = Some v"
  then have gt: "goodState cards t"
    and l: "(vis(serializeState st \<mapsto> countRemoved (Pyramid st))) (serializeState t) = Some v"
    by blast+
  show "v = countRemoved (Pyramid t)"
  proof (cases "serializeState t = serializeState st")
    case True
    from l have "(vis(serializeState st \<mapsto> countRemoved (Pyramid st))) (serializeState st) = Some v"
      by (simp only: True)
    then have "v = countRemoved (Pyramid st)" by simp
    moreover from key_inj[OF wf gt g True] have "proj t = proj st" .
    ultimately show ?thesis using proj_count[of t st] by simp
  next
    case False
    with l have "vis (serializeState t) = Some v" by (simp add: fun_upd_apply)
    with s gt show ?thesis unfolding sound_def by blast
  qed
qed

lemma good_empty_count:
  "goodState cards st \<Longrightarrow> isPyramidEmpty (Pyramid st) \<Longrightarrow> countRemoved (Pyramid st) = 28"
  using isPyramidEmpty_count[of "Pyramid st"] tri_slots[of "Pyramid st"] by (simp add: goodState_def)

lemma covered_refl: "covered cards vis vis n"
  by (simp add: covered_def)

section \<open>What a call adds to the visited table\<close>

lemma covered_trans:
  assumes "dom v1 \<subseteq> dom vis'" "covered cards vis v1 n1" "covered cards v1 vis' n" "n1 \<le> n"
  shows "covered cards vis vis' n"
  unfolding covered_def
proof (intro allI impI)
  fix t assume a: "goodState cards t \<and> serializeState t \<in> dom vis' \<and> serializeState t \<notin> dom vis"
  show "countRemoved (Pyramid t) \<le> n \<and> (\<forall>c. Inr c \<in> set (kids t) \<longrightarrow> serializeState c \<in> dom vis')"
  proof (cases "serializeState t \<in> dom v1")
    case True
    with a assms(2) have "countRemoved (Pyramid t) \<le> n1"
      and "\<forall>c. Inr c \<in> set (kids t) \<longrightarrow> serializeState c \<in> dom v1"
      unfolding covered_def by blast+
    with assms(1,4) show ?thesis by fastforce
  next
    case False
    with a assms(3) show ?thesis unfolding covered_def by blast
  qed
qed

lemma covered_weaken: "covered cards vis vis' n \<Longrightarrow> n \<le> n' \<Longrightarrow> covered cards vis vis' n'"
  unfolding covered_def by fastforce

lemma okS_leaf:
  assumes "goodState cards st" "sound cards vis" "isPyramidEmpty (Pyramid st) \<or> pruned vis st"
  shows "okS cards st vis (leafResult st) vis"
proof -
  have c: "RemovedCount (leafResult st) = countRemoved (Pyramid st)" by (simp add: leafResult_def)
  have "RemovedCount (leafResult st) = 28 \<or> serializeState st \<in> dom vis"
    using assms good_empty_count sound_pruned c by metis
  then show ?thesis unfolding okS_def using assms(2) c good_count[OF assms(1)] covered_refl
    by auto
qed

lemma okS_node:
  assumes wf: "\<forall>c\<in>set cards. wellFormedCard c" and g: "goodState cards st"
    and e: "okE cards (kids st) (leafResult st) (vis(serializeState st \<mapsto> countRemoved (Pyramid st))) res vis'"
  shows "okS cards st vis res vis'"
proof -
  let ?k = "serializeState st" and ?n = "RemovedCount res"
  let ?v1 = "vis(?k \<mapsto> countRemoved (Pyramid st))"
  from e have s': "sound cards vis'" and d: "dom ?v1 \<subseteq> dom vis'"
    and le: "countRemoved (Pyramid st) \<le> ?n" and b: "?n \<le> 28"
    and alt: "?n = 28 \<or> ((\<forall>c. Inr c \<in> set (kids st) \<longrightarrow> serializeState c \<in> dom vis')
             \<and> covered cards ?v1 vis' ?n)"
    unfolding okE_def by (simp_all add: leafResult_def)
  from d have d': "dom vis \<subseteq> dom vis'" and kin: "?k \<in> dom vis'" by auto
  have "?n = 28 \<or> covered cards vis vis' ?n"
  proof (cases "?n = 28")
    case True
    then show ?thesis ..
  next
    case False
    with alt have kk: "\<forall>c. Inr c \<in> set (kids st) \<longrightarrow> serializeState c \<in> dom vis'"
      and cv: "covered cards ?v1 vis' ?n" by blast+
    have "covered cards vis vis' ?n"
      unfolding covered_def
    proof (intro allI impI)
      fix t assume a: "goodState cards t \<and> serializeState t \<in> dom vis' \<and> serializeState t \<notin> dom vis"
      show "countRemoved (Pyramid t) \<le> ?n \<and> (\<forall>c. Inr c \<in> set (kids t) \<longrightarrow> serializeState c \<in> dom vis')"
      proof (cases "serializeState t = ?k")
        case True
        from a have gt: "goodState cards t" by blast
        from key_inj[OF wf gt g True] have p: "proj t = proj st" .
        from proj_count[OF p] le have 1: "countRemoved (Pyramid t) \<le> ?n" by simp
        have 2: "\<forall>c. Inr c \<in> set (kids t) \<longrightarrow> serializeState c \<in> dom vis'"
          using kids_same[OF p] kk by metis
        from 1 2 show ?thesis ..
      next
        case False
        with a have "serializeState t \<notin> dom ?v1" by simp
        with a cv show ?thesis unfolding covered_def by blast
      qed
    qed
    then show ?thesis ..
  qed
  with s' d' le b kin show ?thesis unfolding okS_def by blast
qed

lemma okE_nil: "sound cards vis \<Longrightarrow> RemovedCount best \<le> 28 \<Longrightarrow> okE cards [] best vis best vis"
  unfolding okE_def using covered_refl by auto

lemma better_le: "RemovedCount best \<le> RemovedCount (better res best)"
  "RemovedCount res \<le> RemovedCount (better res best)"
  by (simp_all add: better_def)

lemma better_bound: "RemovedCount res \<le> 28 \<Longrightarrow> RemovedCount best \<le> 28 \<Longrightarrow> RemovedCount (better res best) \<le> 28"
  by (simp add: better_def)

lemma okE_found:
  assumes "okS cards s vis res vis'" "RemovedCount (better res best) = 28"
  shows "okE cards (Inr s # rest) best vis (better res best) vis'"
  using assms better_le(1)[of best res] unfolding okS_def okE_def by simp

lemma okE_continue:
  assumes s: "okS cards s vis res v1" and b: "RemovedCount best \<le> 28"
    and n: "RemovedCount (better res best) \<noteq> 28"
    and e: "okE cards rest (better res best) v1 res' vis'"
  shows "okE cards (Inr s # rest) best vis res' vis'"
proof -
  from s have d1: "dom vis \<subseteq> dom v1" and rb: "RemovedCount res \<le> 28"
    and alt1: "RemovedCount res = 28 \<or> (serializeState s \<in> dom v1 \<and> covered cards vis v1 (RemovedCount res))"
    unfolding okS_def by simp_all
  from n rb b have "RemovedCount res \<noteq> 28" by (auto simp: better_def split: if_splits)
  with alt1 have k1: "serializeState s \<in> dom v1" and c1: "covered cards vis v1 (RemovedCount res)"
    by blast+
  from e have s': "sound cards vis'" and d2: "dom v1 \<subseteq> dom vis'"
    and le: "RemovedCount (better res best) \<le> RemovedCount res'" and b': "RemovedCount res' \<le> 28"
    and alt2: "RemovedCount res' = 28 \<or> ((\<forall>c. Inr c \<in> set rest \<longrightarrow> serializeState c \<in> dom vis')
             \<and> covered cards v1 vis' (RemovedCount res'))"
    unfolding okE_def by simp_all
  from le better_le(1)[of best res] better_le(2)[of res best] have l1: "RemovedCount best \<le> RemovedCount res'"
    and l2: "RemovedCount res \<le> RemovedCount res'" by simp_all
  have "RemovedCount res' = 28 \<or> ((\<forall>c. Inr c \<in> set (Inr s # rest) \<longrightarrow> serializeState c \<in> dom vis')
             \<and> covered cards vis vis' (RemovedCount res'))"
  proof (cases "RemovedCount res' = 28")
    case True
    then show ?thesis ..
  next
    case False
    with alt2 have kk: "\<forall>c. Inr c \<in> set rest \<longrightarrow> serializeState c \<in> dom vis'"
      and c2: "covered cards v1 vis' (RemovedCount res')" by blast+
    from k1 d2 kk have "\<forall>c. Inr c \<in> set (Inr s # rest) \<longrightarrow> serializeState c \<in> dom vis'" by auto
    moreover from covered_trans[OF d2 c1 c2 l2] have "covered cards vis vis' (RemovedCount res')" .
    ultimately show ?thesis by blast
  qed
  with s' d1 d2 l1 b' show ?thesis unfolding okE_def by blast
qed

lemma okS_sound: "okS cards s vis res vis' \<Longrightarrow> sound cards vis'"
  by (simp add: okS_def)

lemma okS_bound: "okS cards s vis res vis' \<Longrightarrow> RemovedCount res \<le> 28"
  by (simp add: okS_def)

lemma solves_ok:
  assumes wf: "\<forall>c\<in>set cards. wellFormedCard c"
  shows "solves st vis r \<Longrightarrow> goodState cards st \<and> sound cards vis \<longrightarrow>
      (\<forall>res vis'. r = Inr (res, vis') \<longrightarrow> okS cards st vis res vis')"
    and "explores cs best vis r \<Longrightarrow>
      (\<forall>c. Inr c \<in> set cs \<longrightarrow> goodState cards c) \<and> sound cards vis \<and> RemovedCount best \<le> 28 \<longrightarrow>
      (\<forall>res vis'. r = Inr (res, vis') \<longrightarrow> okE cards cs best vis res vis')"
proof (induction rule: solves_explores.inducts)
  case (leaf st vis)
  then show ?case using okS_leaf by simp
next
  case (node st vis r)
  show ?case
  proof (intro impI allI)
    fix res vis' assume a: "goodState cards st \<and> sound cards vis" and r: "r = Inr (res, vis')"
    then have g: "goodState cards st" and s: "sound cards vis" by blast+
    have 1: "\<forall>c. Inr c \<in> set (kids st) \<longrightarrow> goodState cards c" using kids_good[OF g] by blast
    have 2: "sound cards (vis(serializeState st \<mapsto> countRemoved (Pyramid st)))"
      using sound_update[OF wf s g] .
    have 3: "RemovedCount (leafResult st) \<le> 28" using good_count[OF g] by (simp add: leafResult_def)
    from node.IH 1 2 3 r
    have "okE cards (kids st) (leafResult st) (vis(serializeState st \<mapsto> countRemoved (Pyramid st))) res vis'"
      by blast
    from okS_node[OF wf g this] show "okS cards st vis res vis'" .
  qed
next
  case (nil best vis)
  then show ?case using okE_nil by simp
next
  case (panic e rest best vis)
  then show ?case by simp
next
  case (childPanic s vis e rest best)
  then show ?case by simp
next
  case (found s vis res vis' best rest)
  show ?case
  proof (intro impI allI)
    fix res' v'
    assume a: "(\<forall>c. Inr c \<in> set (Inr s # rest) \<longrightarrow> goodState cards c) \<and> sound cards vis \<and> RemovedCount best \<le> 28"
      and r: "Inr (better res best, vis') = Inr (res', v')"
    from a found.IH have "okS cards s vis res vis'" by simp
    from okE_found[OF this found.hyps(2)] r show "okE cards (Inr s # rest) best vis res' v'" by simp
  qed
next
  case (continue s vis res vis' best rest r)
  show ?case
  proof (intro impI allI)
    fix res' v'
    assume a: "(\<forall>c. Inr c \<in> set (Inr s # rest) \<longrightarrow> goodState cards c) \<and> sound cards vis \<and> RemovedCount best \<le> 28"
      and r: "r = Inr (res', v')"
    from a continue.IH(1) have s: "okS cards s vis res vis'" by simp
    from a have b: "RemovedCount best \<le> 28" by blast
    from a have "\<forall>c. Inr c \<in> set rest \<longrightarrow> goodState cards c" by simp
    with continue.IH(2) okS_sound[OF s] better_bound[OF okS_bound[OF s] b] r
    have "okE cards rest (better res best) vis' res' v'" by blast
    from okE_continue[OF s b continue.hyps(2) this] show "okE cards (Inr s # rest) best vis res' v'" .
  qed
qed

section \<open>The search with and without the visited table\<close>

lemma attains_here: "attains st (countRemoved (Pyramid st))"
  unfolding attains_def using reaches.here by blast

lemma attains_step: "Inr c \<in> set (kids st) \<Longrightarrow> attains c n \<Longrightarrow> attains st n"
  unfolding attains_def using reaches.step by blast

lemma reaches_cases:
  "reaches s t \<Longrightarrow> t = s \<or> (\<exists>c. Inr c \<in> set (kids s) \<and> reaches c t)"
  by (cases rule: reaches.cases) auto

lemma reaches_good: "reaches s t \<Longrightarrow> goodState cards s \<Longrightarrow> goodState cards t"
proof (induction rule: reaches.induct)
  case (here s)
  then show ?case .
next
  case (step c s t)
  then show ?case using kids_good by blast
qed

lemma solves_attains:
  shows "solves st vis r \<Longrightarrow> (\<forall>res v'. r = Inr (res, v') \<longrightarrow> attains st (RemovedCount res))"
    and "explores cs best vis r \<Longrightarrow>
       (\<forall>res v'. r = Inr (res, v') \<longrightarrow>
          res = best \<or> (\<exists>c. Inr c \<in> set cs \<and> attains c (RemovedCount res)))"
proof (induction rule: solves_explores.inducts)
  case (leaf st vis)
  then show ?case using attains_here[of st] by (simp add: leafResult_def)
next
  case (node st vis r)
  show ?case
  proof (intro allI impI)
    fix res v' assume "r = Inr (res, v')"
    with node.IH have "res = leafResult st \<or> (\<exists>c. Inr c \<in> set (kids st) \<and> attains c (RemovedCount res))"
      by blast
    then show "attains st (RemovedCount res)"
    proof
      assume "res = leafResult st"
      then show ?thesis using attains_here[of st] by (simp add: leafResult_def)
    next
      assume "\<exists>c. Inr c \<in> set (kids st) \<and> attains c (RemovedCount res)"
      then show ?thesis using attains_step by blast
    qed
  qed
next
  case (nil best vis)
  then show ?case by simp
next
  case (panic e rest best vis)
  then show ?case by simp
next
  case (childPanic s vis e rest best)
  then show ?case by simp
next
  case (found s vis res vis' best rest)
  from found.IH have rs: "attains s (RemovedCount res)" by simp
  have b: "better res best = res \<or> better res best = best" by (simp add: better_def)
  show ?case
  proof (intro allI impI)
    fix res' v' assume "Inr (better res best, vis') = Inr (res', v')"
    then have "res' = better res best" by simp
    with b rs show "res' = best \<or> (\<exists>c. Inr c \<in> set (Inr s # rest) \<and> attains c (RemovedCount res'))"
      by (metis list.set_intros(1))
  qed
next
  case (continue s vis res vis' best rest r)
  from continue.IH(1) have rs: "attains s (RemovedCount res)" by simp
  have b: "better res best = res \<or> better res best = best" by (simp add: better_def)
  show ?case
  proof (intro allI impI)
    fix res' v' assume "r = Inr (res', v')"
    with continue.IH(2) have "res' = better res best \<or> (\<exists>c. Inr c \<in> set rest \<and> attains c (RemovedCount res'))"
      by blast
    with b rs show "res' = best \<or> (\<exists>c. Inr c \<in> set (Inr s # rest) \<and> attains c (RemovedCount res'))"
      by (metis list.set_intros(1) list.set_intros(2))
  qed
qed

lemma covered_reaches:
  assumes cov: "covered cards Map.empty vis' n"
  shows "reaches s t \<Longrightarrow> goodState cards s \<Longrightarrow> serializeState s \<in> dom vis' \<Longrightarrow>
     goodState cards t \<and> serializeState t \<in> dom vis'"
proof (induction rule: reaches.induct)
  case (here s)
  then show ?case by simp
next
  case (step c s t)
  from cov step.prems have "serializeState c \<in> dom vis'"
    using step.hyps(1) unfolding covered_def by simp
  moreover have "goodState cards c" using kids_good[OF step.prems(1) step.hyps(1)] .
  ultimately show ?case using step.IH by blast
qed

lemma sound_empty: "sound cards Map.empty"
  by (simp add: sound_def)

lemma solveState_tops:
  assumes wf: "\<forall>c\<in>set cards. wellFormedCard c" and g: "goodState cards st"
    and s: "solveState d st Map.empty = Some (Inr (res, vis'))"
  shows "attains st (RemovedCount res)" "tops st (RemovedCount res)" "RemovedCount res \<le> 28"
proof -
  from solveState_solves[OF s] have sv: "solves st Map.empty (Inr (res, vis'))" .
  from solves_attains(1)[OF sv] show "attains st (RemovedCount res)" by blast
  from solves_ok(1)[OF wf sv] g sound_empty have ok: "okS cards st Map.empty res vis'" by blast
  then show "RemovedCount res \<le> 28" by (simp add: okS_def)
  show "tops st (RemovedCount res)"
  proof (cases "RemovedCount res = 28")
    case True
    then show ?thesis by (simp add: tops_def)
  next
    case False
    with ok have k: "serializeState st \<in> dom vis'" and c: "covered cards Map.empty vis' (RemovedCount res)"
      unfolding okS_def by blast+
    have "\<forall>t. reaches st t \<longrightarrow> countRemoved (Pyramid t) \<le> RemovedCount res"
    proof (intro allI impI)
      fix t assume "reaches st t"
      from covered_reaches[OF c this g k] c show "countRemoved (Pyramid t) \<le> RemovedCount res"
        unfolding covered_def by simp
    qed
    then show ?thesis by (simp add: tops_def)
  qed
qed

lemma tops_weaken: "tops c n \<Longrightarrow> n \<le> n' \<Longrightarrow> n' \<le> 28 \<Longrightarrow> tops c n'"
  unfolding tops_def by fastforce

lemma exploreNoPrune_ok:
  assumes S: "\<And>s r. goodState cards s \<Longrightarrow> solveStateNoPrune d s = Some (Inr r) \<Longrightarrow> okN s r"
  shows "\<forall>c. Inr c \<in> set cs \<longrightarrow> goodState cards c \<Longrightarrow> RemovedCount best \<le> 28 \<Longrightarrow>
     exploreNoPrune d cs best = Some (Inr res) \<Longrightarrow> okNE cs best res"
proof (induction cs arbitrary: best)
  case Nil
  then show ?case by (simp add: okNE_def)
next
  case (Cons c cs)
  show ?case
  proof (cases c)
    case (Inl e)
    with Cons.prems show ?thesis by simp
  next
    case (Inr s)
    with Cons.prems(1) have gs: "goodState cards s" by simp
    from Cons.prems(3) Inr obtain x where x: "solveStateNoPrune d s = Some x"
      by (auto simp: exploreNoPrune_Inr split: option.splits)
    with Cons.prems(3) Inr obtain r1 where r1: "x = Inr r1"
      by (cases x) (auto simp: exploreNoPrune_Inr)
    from S[OF gs] x r1 have o: "okN s r1" by simp
    then have a1: "attains s (RemovedCount r1)" and b1: "RemovedCount r1 \<le> 28"
      and t1: "tops s (RemovedCount r1)" by (simp_all add: okN_def)
    have bb: "RemovedCount (better r1 best) \<le> 28" using better_bound[OF b1 Cons.prems(2)] .
    have bc: "better r1 best = r1 \<or> better r1 best = best" by (simp add: better_def)
    show ?thesis
    proof (cases "RemovedCount (better r1 best) = 28")
      case True
      with Cons.prems(3) Inr x r1 have res: "res = better r1 best" by (simp add: exploreNoPrune_Inr)
      have "res = best \<or> (\<exists>c'. Inr c' \<in> set (c # cs) \<and> attains c' (RemovedCount res))"
        using bc a1 res Inr by (metis list.set_intros(1))
      with True res better_le(1)[of best r1] show ?thesis by (simp add: okNE_def)
    next
      case False
      with Cons.prems(3) Inr x r1 have e: "exploreNoPrune d cs (better r1 best) = Some (Inr res)"
        by (simp add: exploreNoPrune_Inr)
      from Cons.prems(1) have g: "\<forall>c. Inr c \<in> set cs \<longrightarrow> goodState cards c" by simp
      from Cons.IH[OF g bb e] have ih: "okNE cs (better r1 best) res" .
      then have i1: "res = better r1 best \<or> (\<exists>c. Inr c \<in> set cs \<and> attains c (RemovedCount res))"
        and i2: "RemovedCount res \<le> 28" and i3: "RemovedCount (better r1 best) \<le> RemovedCount res"
        and i4: "RemovedCount res = 28 \<or> (\<forall>c. Inr c \<in> set cs \<longrightarrow> tops c (RemovedCount res))"
        by (simp_all add: okNE_def)
      from i3 better_le(1)[of best r1] better_le(2)[of r1 best]
      have l1: "RemovedCount best \<le> RemovedCount res" and l2: "RemovedCount r1 \<le> RemovedCount res"
        by simp_all
      have p1: "res = best \<or> (\<exists>c'. Inr c' \<in> set (c # cs) \<and> attains c' (RemovedCount res))"
        using i1 bc a1 Inr by (metis list.set_intros(1) list.set_intros(2))
      have p4: "RemovedCount res = 28 \<or> (\<forall>c'. Inr c' \<in> set (c # cs) \<longrightarrow> tops c' (RemovedCount res))"
      proof (cases "RemovedCount res = 28")
        case True
        then show ?thesis ..
      next
        case False
        with i4 have "\<forall>c. Inr c \<in> set cs \<longrightarrow> tops c (RemovedCount res)" by blast
        moreover have "tops s (RemovedCount res)" using tops_weaken[OF t1 l2 i2] .
        ultimately show ?thesis using Inr by auto
      qed
      from p1 i2 l1 p4 show ?thesis by (simp add: okNE_def)
    qed
  qed
qed

lemma tops_node:
  assumes "countRemoved (Pyramid st) \<le> n" "\<forall>c. Inr c \<in> set (kids st) \<longrightarrow> tops c n"
  shows "tops st n"
proof (cases "n = 28")
  case True
  then show ?thesis by (simp add: tops_def)
next
  case False
  have "\<forall>t. reaches st t \<longrightarrow> countRemoved (Pyramid t) \<le> n"
  proof (intro allI impI)
    fix t assume "reaches st t"
    from reaches_cases[OF this] show "countRemoved (Pyramid t) \<le> n"
    proof
      assume "t = st"
      with assms(1) show ?thesis by simp
    next
      assume "\<exists>c. Inr c \<in> set (kids st) \<and> reaches c t"
      then obtain c where c: "Inr c \<in> set (kids st)" "reaches c t" by blast
      with assms(2) have "tops c n" by blast
      with False c(2) show ?thesis by (simp add: tops_def)
    qed
  qed
  then show ?thesis by (simp add: tops_def)
qed

lemma solveStateNoPrune_ok:
  "goodState cards st \<Longrightarrow> solveStateNoPrune d st = Some (Inr res) \<Longrightarrow> okN st res"
proof (induction d arbitrary: st res)
  case 0
  then show ?case by simp
next
  case (Suc d)
  show ?case
  proof (cases "isPyramidEmpty (Pyramid st)")
    case True
    with Suc.prems(2) have r: "res = leafResult st" by (simp add: solveStateNoPrune_Suc)
    then have "RemovedCount res = 28"
      using good_empty_count[OF Suc.prems(1) True] by (simp add: leafResult_def)
    moreover have "attains st (RemovedCount res)" using attains_here[of st] r by (simp add: leafResult_def)
    ultimately show ?thesis by (simp add: okN_def tops_def)
  next
    case False
    with Suc.prems(2) have e: "exploreNoPrune d (kids st) (leafResult st) = Some (Inr res)"
      by (simp add: solveStateNoPrune_Suc)
    have g: "\<forall>c. Inr c \<in> set (kids st) \<longrightarrow> goodState cards c" using kids_good[OF Suc.prems(1)] by blast
    have b: "RemovedCount (leafResult st) \<le> 28" using good_count[OF Suc.prems(1)] by (simp add: leafResult_def)
    from exploreNoPrune_ok[of cards d, OF Suc.IH g b e] have o: "okNE (kids st) (leafResult st) res" by simp
    then have i1: "res = leafResult st \<or> (\<exists>c. Inr c \<in> set (kids st) \<and> attains c (RemovedCount res))"
      and i2: "RemovedCount res \<le> 28" and i3: "countRemoved (Pyramid st) \<le> RemovedCount res"
      and i4: "RemovedCount res = 28 \<or> (\<forall>c. Inr c \<in> set (kids st) \<longrightarrow> tops c (RemovedCount res))"
      by (simp_all add: okNE_def leafResult_def)
    have a: "attains st (RemovedCount res)"
      using i1 attains_here[of st] attains_step[of _ st] by (auto simp: leafResult_def)
    have t: "tops st (RemovedCount res)"
    proof (cases "RemovedCount res = 28")
      case True
      then show ?thesis by (simp add: tops_def)
    next
      case False
      with i4 tops_node[OF i3] show ?thesis by blast
    qed
    from a i2 t show ?thesis by (simp add: okN_def)
  qed
qed

lemma exploreNoPrune_no_panic:
  assumes S: "\<And>s r. goodState cards s \<Longrightarrow> solveStateNoPrune d s = Some r \<Longrightarrow> \<exists>x. r = Inr x"
  shows "\<forall>c. Inr c \<in> set cs \<longrightarrow> goodState cards c \<Longrightarrow> \<forall>e. Inl e \<notin> set cs \<Longrightarrow>
     exploreNoPrune d cs best = Some r \<Longrightarrow> \<exists>x. r = Inr x"
proof (induction cs arbitrary: best)
  case Nil
  then show ?case by auto
next
  case (Cons c cs)
  from Cons.prems(2) obtain s where c: "c = Inr s" by (cases c) auto
  with Cons.prems(1) have gs: "goodState cards s" by simp
  from Cons.prems(3) c obtain x where x: "solveStateNoPrune d s = Some x"
    by (auto simp: exploreNoPrune_Inr split: option.splits)
  from S[OF gs x] obtain r1 where r1: "x = Inr r1" by blast
  show ?case
  proof (cases "RemovedCount (better r1 best) = 28")
    case True
    with Cons.prems(3) c x r1 show ?thesis by (auto simp: exploreNoPrune_Inr)
  next
    case False
    with Cons.prems(3) c x r1 have "exploreNoPrune d cs (better r1 best) = Some r"
      by (simp add: exploreNoPrune_Inr)
    with Cons.IH Cons.prems(1,2) show ?thesis by auto
  qed
qed

lemma solveStateNoPrune_no_panic:
  assumes ne: "[] \<notin> set cards"
  shows "goodState cards st \<Longrightarrow> solveStateNoPrune d st = Some r \<Longrightarrow> \<exists>x. r = Inr x"
proof (induction d arbitrary: st r)
  case 0
  then show ?case by simp
next
  case (Suc d)
  show ?case
  proof (cases "isPyramidEmpty (Pyramid st)")
    case True
    with Suc.prems(2) show ?thesis by (auto simp: solveStateNoPrune_Suc)
  next
    case False
    with Suc.prems(2) have e: "exploreNoPrune d (kids st) (leafResult st) = Some r"
      by (simp add: solveStateNoPrune_Suc)
    have g: "\<forall>c. Inr c \<in> set (kids st) \<longrightarrow> goodState cards c" using kids_good[OF Suc.prems(1)] by blast
    have p: "\<forall>e. Inl e \<notin> set (kids st)" using kids_no_panic[OF Suc.prems(1) ne] by blast
    from exploreNoPrune_no_panic[of cards d, OF Suc.IH g p e] show ?thesis by simp
  qed
qed

section \<open>The search without the table returns only on a full clear\<close>

lemma last_kid:
  assumes g: "goodState cards st" and ne: "[] \<notin> set cards" and u: "unfinished st"
  shows "\<exists>cs c. kids st = cs @ [Inr c] \<and> unfinished c"
proof -
  from g have sh: "map length (Pyramid st) = [1 ..< 8]" and dk: "set (Deck st) \<subseteq> set cards"
    unfolding goodState_def by simp_all
  from getExposedCards_total[OF sh] obtain ex where ex: "getExposedCards (Pyramid st) = Inr ex" by blast
  let ?pre = "kingChildren st (sortExposed ex) @ pairChildren st (sortExposed ex)
     @ wasteChildren st (sortExposed ex)"
  have k: "kids st = ?pre @ drawChildren st @ recycleChildren st"
    by (simp add: kids_def ex children_def)
  from u obtain x where x: "x \<in> set (Deck st) \<or> x \<in> set (Waste st)" "getCardValue x \<noteq> Inr 13"
    unfolding unfinished_def by auto
  show ?thesis
  proof (cases "Deck st")
    case Nil
    with x(1) have w: "Waste st \<noteq> []" by auto
    let ?c = "st\<lparr>Deck := rev (Waste st), Waste := [], Moves := Moves st @ [Recycle]\<rparr>"
    have "kids st = ?pre @ [Inr ?c]"
      using k Nil w by (simp add: drawChildren_def recycleChildren_def)
    moreover have "unfinished ?c" using x Nil unfolding unfinished_def by auto
    ultimately show ?thesis by blast
  next
    case (Cons drawn deck)
    then have "drawn \<in> set cards" using dk by auto
    with ne have "drawn \<noteq> []" by auto
    from getCardValue_nonempty[OF this] obtain v where v: "getCardValue drawn = Inr v" by blast
    have r: "recycleChildren st = []" using Cons by (simp add: recycleChildren_def)
    show ?thesis
    proof (cases "v = 13")
      case True
      let ?c = "st\<lparr>Deck := deck, Moves := Moves st @ [DrawKing drawn]\<rparr>"
      have "kids st = ?pre @ [Inr ?c]"
        using k Cons v True r by (simp add: drawChildren_def)
      moreover have "x \<noteq> drawn" using x(2) v True by auto
      then have "unfinished ?c" using x Cons unfolding unfinished_def by auto
      ultimately show ?thesis by blast
    next
      case False
      let ?c = "st\<lparr>Deck := deck, Waste := Waste st @ [drawn], Moves := Moves st @ [DrawCard drawn]\<rparr>"
      have "kids st = ?pre @ [Inr ?c]"
        using k Cons v False r by (simp add: drawChildren_def)
      moreover have "unfinished ?c" using x Cons unfolding unfinished_def by auto
      ultimately show ?thesis by blast
    qed
  qed
qed

lemma exploreNoPrune_last:
  assumes last: "\<And>r. solveStateNoPrune d c = Some (Inr r) \<Longrightarrow> RemovedCount r = 28"
  shows "RemovedCount best \<le> 28 \<Longrightarrow>
     \<forall>s r. Inr s \<in> set cs \<longrightarrow> solveStateNoPrune d s = Some (Inr r) \<longrightarrow> RemovedCount r \<le> 28 \<Longrightarrow>
     exploreNoPrune d (cs @ [Inr c]) best = Some (Inr res) \<Longrightarrow> RemovedCount res = 28"
proof (induction cs arbitrary: best)
  case Nil
  from Nil.prems(3) obtain r where r: "solveStateNoPrune d c = Some (Inr r)"
    by (auto simp: exploreNoPrune_Inr split: option.splits sum.splits)
  from last[OF r] Nil.prems(1) have b: "RemovedCount (better r best) = 28"
    by (simp add: better_def)
  with Nil.prems(3) r have "res = better r best" by (simp add: exploreNoPrune_Inr)
  with b show ?case by simp
next
  case (Cons x cs)
  show ?case
  proof (cases x)
    case (Inl e)
    with Cons.prems(3) show ?thesis by simp
  next
    case (Inr s)
    with Cons.prems(3) obtain r where r: "solveStateNoPrune d s = Some (Inr r)"
      by (auto simp: exploreNoPrune_Inr split: option.splits sum.splits)
    from Cons.prems(2) Inr r have r28: "RemovedCount r \<le> 28" by simp
    with Cons.prems(1) have b28: "RemovedCount (better r best) \<le> 28" by (simp add: better_def)
    show ?thesis
    proof (cases "RemovedCount (better r best) = 28")
      case True
      with Cons.prems(3) Inr r have "res = better r best" by (simp add: exploreNoPrune_Inr)
      with True show ?thesis by simp
    next
      case False
      with Cons.prems(3) Inr r have e: "exploreNoPrune d (cs @ [Inr c]) (better r best) = Some (Inr res)"
        by (simp add: exploreNoPrune_Inr)
      from Cons.prems(2) have "\<forall>s r. Inr s \<in> set cs \<longrightarrow> solveStateNoPrune d s = Some (Inr r) \<longrightarrow> RemovedCount r \<le> 28"
        by simp
      from Cons.IH[OF b28 this e] show ?thesis .
    qed
  qed
qed

lemma unpruned_full:
  assumes ne: "[] \<notin> set cards"
  shows "goodState cards st \<Longrightarrow> unfinished st \<Longrightarrow> solveStateNoPrune d st = Some (Inr res) \<Longrightarrow>
     RemovedCount res = 28"
proof (induction d arbitrary: st res)
  case 0
  then show ?case by simp
next
  case (Suc d)
  show ?case
  proof (cases "isPyramidEmpty (Pyramid st)")
    case True
    with Suc.prems(3) have "res = leafResult st" by (simp add: solveStateNoPrune_Suc)
    with good_empty_count[OF Suc.prems(1) True] show ?thesis by (simp add: leafResult_def)
  next
    case False
    with Suc.prems(3) have e: "exploreNoPrune d (kids st) (leafResult st) = Some (Inr res)"
      by (simp add: solveStateNoPrune_Suc)
    from last_kid[OF Suc.prems(1) ne Suc.prems(2)] obtain cs c where
      k: "kids st = cs @ [Inr c]" and uc: "unfinished c" by blast
    have gk: "goodState cards s" if "Inr s \<in> set (kids st)" for s
      using kids_good[OF Suc.prems(1) that] .
    have gc: "goodState cards c" using gk k by simp
    have last: "RemovedCount r = 28" if "solveStateNoPrune d c = Some (Inr r)" for r
      using Suc.IH[OF gc uc that] .
    have b: "RemovedCount (leafResult st) \<le> 28"
      using good_count[OF Suc.prems(1)] by (simp add: leafResult_def)
    have others: "\<forall>s r. Inr s \<in> set cs \<longrightarrow> solveStateNoPrune d s = Some (Inr r) \<longrightarrow> RemovedCount r \<le> 28"
    proof (intro allI impI)
      fix s r assume s: "Inr s \<in> set cs" and r: "solveStateNoPrune d s = Some (Inr r)"
      from s k have "goodState cards s" using gk by simp
      from solveStateNoPrune_ok[OF this r] show "RemovedCount r \<le> 28" by (simp add: okN_def)
    qed
    from e k have "exploreNoPrune d (cs @ [Inr c]) (leafResult st) = Some (Inr res)" by simp
    from exploreNoPrune_last[of d c "leafResult st" cs res, OF last b others this]
    show ?thesis .
  qed
qed

lemma count_one_distinct: "\<forall>x\<in>set xs. count_list xs x = 1 \<Longrightarrow> distinct xs"
proof (induction xs)
  case Nil
  then show ?case by simp
next
  case (Cons a xs)
  from Cons.prems have "count_list xs a = 0" by simp
  then have a: "a \<notin> set xs" by (simp add: count_list_0_iff)
  have "\<forall>x\<in>set xs. count_list xs x = 1"
  proof
    fix x assume x: "x \<in> set xs"
    with a have "a \<noteq> x" by auto
    moreover from Cons.prems x have "count_list (a # xs) x = 1" by simp
    ultimately show "count_list xs x = 1" by simp
  qed
  from Cons.IH[OF this] a show ?case by simp
qed

lemma rankValue_King: "rank \<in> set ranks \<Longrightarrow> rankValue rank = 13 \<Longrightarrow> rank = ''k''"
  unfolding ranks_def rankValue_def by (simp, elim disjE, simp_all)

lemma King_token:
  assumes "wellFormedCard crd" "getCardValue crd = Inr 13"
  shows "toLower crd \<in> {''kc'', ''kd'', ''kh'', ''ks''}"
proof -
  from assms(1) have "toLower crd \<in> set standardDeck" by (simp add: wellFormedCard_def)
  then obtain rank suit where rs: "rank \<in> set ranks" "suit \<in> set suits" "toLower crd = rank @ suit"
    unfolding standardDeck_def by auto
  from getCardValue_wellFormed[OF rs] assms(2) have "rankValue rank = 13" by simp
  from rankValue_King[OF rs(1) this] rs(2,3) show ?thesis by (auto simp: suits_def)
qed

lemma initial_unfinished:
  assumes v: "checkDeck toLower cards = None" and i: "initialState cards = Inr init"
  shows "unfinished init"
proof (rule ccontr)
  assume n: "\<not> unfinished init"
  note vc = valid_cards[OF v]
  let ?D = "drop 28 cards"
  from i have d: "Deck init = ?D"
    by (auto simp: initialState_def split: sum.splits)
  from v have c1: "\<forall>c\<in>set standardDeck. count_list (map toLower cards) c = 1"
    by (simp add: checkDeck_iff)
  have "\<forall>x\<in>set (map toLower cards). x \<in> set standardDeck"
    using vc(2) by (simp add: wellFormedCard_def)
  with c1 have "\<forall>x\<in>set (map toLower cards). count_list (map toLower cards) x = 1" by blast
  from count_one_distinct[OF this] have "distinct (map toLower cards)" .
  then have "distinct (drop 28 (map toLower cards))" by (rule distinct_drop)
  then have dd: "distinct (map toLower ?D)" by (simp add: drop_map)
  have "set (map toLower ?D) \<subseteq> {''kc'', ''kd'', ''kh'', ''ks''}"
  proof
    fix y assume "y \<in> set (map toLower ?D)"
    then obtain crd where crd: "crd \<in> set ?D" "y = toLower crd" by auto
    from crd(1) have "crd \<in> set cards" by (rule in_set_dropD)
    with vc(2) have wf: "wellFormedCard crd" by blast
    from n d crd(1) have "getCardValue crd = Inr 13" unfolding unfinished_def by auto
    from King_token[OF wf this] crd(2) show "y \<in> {''kc'', ''kd'', ''kh'', ''ks''}" by simp
  qed
  then have "card (set (map toLower ?D)) \<le> card {''kc'', ''kd'', ''kh'', ''ks''}"
    by (intro card_mono) simp_all
  also have "\<dots> \<le> 4" by (simp add: card_insert_if)
  finally have "card (set (map toLower ?D)) \<le> 4" .
  moreover have "card (set (map toLower ?D)) = 24"
    using distinct_card[OF dd] vc(1) by simp
  ultimately show False by simp
qed

lemma unpruned_returns_full:
  assumes v: "checkDeck toLower cards = None" and n: "solveNoPrune depth cards = Some r"
  shows "\<exists>res'. r = Inr res' \<and> RemovedCount res' = 28"
proof -
  note vc = valid_cards[OF v]
  from initial_good[OF vc(1)] obtain init where i: "initialState cards = Inr init"
    "goodState cards init" by blast
  from n i(1) have np: "solveStateNoPrune depth init = Some r" by (simp add: solveNoPrune_def)
  from solveStateNoPrune_no_panic[OF vc(3) i(2) np] obtain res' where r: "r = Inr res'" by blast
  from unpruned_full[OF vc(3) i(2) initial_unfinished[OF v i(1)]] np r
  have "RemovedCount res' = 28" by simp
  with r show ?thesis by blast
qed

lemma pruned_is_best:
  assumes v: "checkDeck toLower cards = None"
  shows "\<exists>depth res initial.
     initialState cards = Inr initial
     \<and> solvePyramidSolitaire depth cards = Some (Inr res)
     \<and> (\<forall>depth' r. solvePyramidSolitaire depth' cards = Some r \<longrightarrow> r = Inr res)
     \<and> (\<exists>t. reaches initial t \<and> countRemoved (Pyramid t) = RemovedCount res)
     \<and> (\<forall>t. reaches initial t \<longrightarrow> countRemoved (Pyramid t) \<le> RemovedCount res)
     \<and> (\<forall>depth' r. solveNoPrune depth' cards = Some r \<longrightarrow>
          (\<exists>res'. r = Inr res' \<and> RemovedCount res' = 28 \<and> RemovedCount res = 28))"
proof -
  note vc = valid_cards[OF v]
  from initial_good[OF vc(1)] obtain init where i: "initialState cards = Inr init"
    "goodState cards init" by blast
  from solveState_good_result[OF i(2) vc(3)] obtain d res vis' where
    s: "solveState d init Map.empty = Some (Inr (res, vis'))" by blast
  have sol: "solvePyramidSolitaire d cards = Some (Inr res)"
    by (simp add: solvePyramidSolitaire_def i(1) s)
  have uniq: "\<forall>depth' r. solvePyramidSolitaire depth' cards = Some r \<longrightarrow> r = Inr res"
  proof (intro allI impI)
    fix depth' r assume a: "solvePyramidSolitaire depth' cards = Some r"
    then obtain y where y: "solveState depth' init Map.empty = Some y"
      by (auto simp: solvePyramidSolitaire_def i(1) split: option.splits)
    from solveState_unique[OF s y] have "y = Inr (res, vis')" by simp
    with a y show "r = Inr res" by (simp add: solvePyramidSolitaire_def i(1))
  qed
  note p = solveState_tops[OF vc(2) i(2) s]
  from p(1) have att: "\<exists>t. reaches init t \<and> countRemoved (Pyramid t) = RemovedCount res"
    by (simp add: attains_def)
  have top: "\<forall>t. reaches init t \<longrightarrow> countRemoved (Pyramid t) \<le> RemovedCount res"
  proof (intro allI impI)
    fix t assume t: "reaches init t"
    show "countRemoved (Pyramid t) \<le> RemovedCount res"
    proof (cases "RemovedCount res = 28")
      case True
      with good_count[OF reaches_good[OF t i(2)]] show ?thesis by simp
    next
      case False
      with p(2) t show ?thesis by (simp add: tops_def)
    qed
  qed
  have un: "\<forall>depth' r. solveNoPrune depth' cards = Some r \<longrightarrow>
          (\<exists>res'. r = Inr res' \<and> RemovedCount res' = 28 \<and> RemovedCount res = 28)"
  proof (intro allI impI)
    fix depth' r assume n: "solveNoPrune depth' cards = Some r"
    from unpruned_returns_full[OF v n] obtain res' where r: "r = Inr res'" "RemovedCount res' = 28"
      by blast
    from n i(1) have np: "solveStateNoPrune depth' init = Some r" by (simp add: solveNoPrune_def)
    from solveStateNoPrune_ok[OF i(2)] np r(1) have "okN init res'" by simp
    then have "attains init 28" using r(2) by (simp add: okN_def)
    then obtain t where t: "reaches init t" "countRemoved (Pyramid t) = 28"
      unfolding attains_def by blast
    with top have "28 \<le> RemovedCount res" by auto
    with p(3) have "RemovedCount res = 28" by simp
    with r show "\<exists>res'. r = Inr res' \<and> RemovedCount res' = 28 \<and> RemovedCount res = 28" by blast
  qed
  from i(1) sol uniq att top un show ?thesis by blast
qed

text \<open>
  Claim C3, as the code has it: for a valid 52-card deck the search with the
  visited-table check returns, and the removed count it returns is the greatest that any
  state has which the moves of the search reach from the initial state: some reachable
  state has removed that many cards and none has removed more, so the check discards no
  better result. The search without the check returns only when it has cleared the
  pyramid, with the count 28, and then the search with the check returns 28 too; when
  the best count of a deal is below 28 the search without the check never returns.
\<close>

theorem pruning_keeps_count:
  "checkDeck toLower cards = None \<Longrightarrow>
   \<exists>depth res initial.
     initialState cards = Inr initial
     \<and> solvePyramidSolitaire depth cards = Some (Inr res)
     \<and> (\<forall>depth' r. solvePyramidSolitaire depth' cards = Some r \<longrightarrow> r = Inr res)
     \<and> (\<exists>t. reaches initial t \<and> countRemoved (Pyramid t) = RemovedCount res)
     \<and> (\<forall>t. reaches initial t \<longrightarrow> countRemoved (Pyramid t) \<le> RemovedCount res)
     \<and> (\<forall>depth' r. solveNoPrune depth' cards = Some r \<longrightarrow>
          (\<exists>res'. r = Inr res' \<and> RemovedCount res' = 28 \<and> RemovedCount res = 28))"
  using pruned_is_best by blast

section \<open>The deal that never ends without the table\<close>

lemma stuckDeal_counts:
  "length stuckDeal = 52 \<and> list_all (\<lambda>c. count_list (map toLower stuckDeal) c = 1) standardDeck"
  by code_simp

lemma stuckDeal_valid: "checkDeck toLower stuckDeal = None"
  using stuckDeal_counts by (simp add: checkDeck_iff list_all_iff)

lemma greedyDeal_counts:
  "length greedyDeal = 52 \<and> list_all (\<lambda>c. count_list (map toLower greedyDeal) c = 1) standardDeck"
  by code_simp

lemma greedyDeal_valid: "checkDeck toLower greedyDeal = None"
  using greedyDeal_counts by (simp add: checkDeck_iff list_all_iff)

lemma greedy_run:
  "(case solveNoPrune 23 greedyDeal of Some (Inr r) \<Rightarrow> RemovedCount r = 28 | _ \<Rightarrow> False)"
  by code_simp

lemma stuck_initial:
  "initialState stuckDeal = Inr \<lparr>Pyramid = stuckPyramid, Deck = stuckDeck, Waste = [], Moves = []\<rparr>"
  by (simp add: initialState_def buildPyramid_def stuckDeal_def stuckPyramid_def stuckDeck_def)

lemma stuckDeck_values:
  "list_all (\<lambda>c. case getCardValue c of Inl e \<Rightarrow> False | Inr v \<Rightarrow> v = 13 \<or> (6 \<le> v \<and> v \<le> 10)) stuckDeck"
  by code_simp

lemma stuck_exposed:
  "(case getExposedCards stuckPyramid of Inl e \<Rightarrow> False
    | Inr ex \<Rightarrow> list_all (\<lambda>e. evalue e = 1 \<or> evalue e = 2) ex)"
  by code_simp

lemma stuck_not_empty: "\<not> isPyramidEmpty stuckPyramid"
  by code_simp

lemma stuck_value:
  "crd \<in> set stuckDeck \<Longrightarrow> \<exists>v. getCardValue crd = Inr v \<and> (v = 13 \<or> (6 \<le> v \<and> v \<le> 10))"
proof -
  assume "crd \<in> set stuckDeck"
  with stuckDeck_values
  have "case getCardValue crd of Inl e \<Rightarrow> False | Inr v \<Rightarrow> v = 13 \<or> (6 \<le> v \<and> v \<le> 10)"
    by (simp add: list_all_iff)
  then show ?thesis by (cases "getCardValue crd") auto
qed

lemma stuck_kids:
  assumes j: "stuckState st"
  shows "\<exists>c. kids st = [Inr c] \<and> stuckState c"
proof -
  from j have p: "Pyramid st = stuckPyramid" and dk: "set (Deck st) \<subseteq> set stuckDeck"
    and ws: "set (Waste st) \<subseteq> set stuckDeck"
    and nk: "\<forall>crd\<in>set (Waste st). getCardValue crd \<noteq> Inr 13"
    and ne: "Waste st \<noteq> [] \<or> (\<exists>crd\<in>set (Deck st). getCardValue crd \<noteq> Inr 13)"
    unfolding stuckState_def by simp_all
  from stuck_exposed obtain ex where ex: "getExposedCards stuckPyramid = Inr ex"
    and low: "\<forall>e\<in>set ex. evalue e = 1 \<or> evalue e = 2"
    by (auto simp: list_all_iff split: sum.splits)
  have low': "\<forall>e\<in>set (sortExposed ex). evalue e = 1 \<or> evalue e = 2"
    using low by (simp add: set_sortExposed)
  have k: "kingChildren st (sortExposed ex) = []"
    using low' by (auto simp: kingChildren_def filter_empty_conv)
  have q: "pairChildren st (sortExposed ex) = []"
  proof -
    have "\<forall>ij\<in>set (pairsOf (sortExposed ex)). evalue (fst ij) + evalue (snd ij) \<noteq> 13"
    proof
      fix ij assume "ij \<in> set (pairsOf (sortExposed ex))"
      then have "fst ij \<in> set (sortExposed ex)" "snd ij \<in> set (sortExposed ex)"
        using pairsOf_set[of "fst ij" "snd ij" "sortExposed ex"] by simp_all
      with low' have "evalue (fst ij) \<le> 2" "evalue (snd ij) \<le> 2" by auto
      then show "evalue (fst ij) + evalue (snd ij) \<noteq> 13" by simp
    qed
    then show ?thesis by (simp add: pairChildren_def filter_empty_conv)
  qed
  have w: "wasteChildren st (sortExposed ex) = []"
  proof (cases "Waste st = []")
    case True
    then show ?thesis by (simp add: wasteChildren_def)
  next
    case False
    then have l: "last (Waste st) \<in> set (Waste st)" by simp
    with ws stuck_value obtain wv where wv: "getCardValue (last (Waste st)) = Inr wv"
      "wv = 13 \<or> (6 \<le> wv \<and> wv \<le> 10)" by blast
    with nk l have "6 \<le> wv \<and> wv \<le> 10" by auto
    with low' have "\<forall>e\<in>set (sortExposed ex). wv + evalue e \<noteq> 13" by auto
    with False wv(1) show ?thesis by (simp add: wasteChildren_def filter_empty_conv)
  qed
  have kd: "kids st = drawChildren st @ recycleChildren st"
    by (simp add: kids_def p ex children_def k q w)
  show ?thesis
  proof (cases "Deck st")
    case Nil
    with ne have wne: "Waste st \<noteq> []" by simp
    let ?c = "st\<lparr>Deck := rev (Waste st), Waste := [], Moves := Moves st @ [Recycle]\<rparr>"
    from Nil wne have "kids st = [Inr ?c]" by (simp add: kd drawChildren_def recycleChildren_def)
    moreover have "stuckState ?c"
      unfolding stuckState_def using p ws nk wne by (auto simp: neq_Nil_conv)
    ultimately show ?thesis by blast
  next
    case (Cons drawn deck)
    with dk stuck_value obtain v where v: "getCardValue drawn = Inr v" by auto
    from Cons dk have dk': "set deck \<subseteq> set stuckDeck" and dm: "drawn \<in> set stuckDeck" by auto
    show ?thesis
    proof (cases "v = 13")
      case True
      let ?c = "st\<lparr>Deck := deck, Moves := Moves st @ [DrawKing drawn]\<rparr>"
      from Cons v True have "kids st = [Inr ?c]" by (simp add: kd drawChildren_def recycleChildren_def)
      moreover have "stuckState ?c"
        unfolding stuckState_def using p dk' ws nk ne Cons v True by auto
      ultimately show ?thesis by blast
    next
      case False
      let ?c = "st\<lparr>Deck := deck, Waste := Waste st @ [drawn], Moves := Moves st @ [DrawCard drawn]\<rparr>"
      from Cons v False have "kids st = [Inr ?c]" by (simp add: kd drawChildren_def recycleChildren_def)
      moreover have "stuckState ?c"
        unfolding stuckState_def using p dk' dm ws nk v False by auto
      ultimately show ?thesis by blast
    qed
  qed
qed

lemma stuck_loops: "stuckState st \<Longrightarrow> solveStateNoPrune d st = None"
proof (induction d arbitrary: st)
  case 0
  then show ?case by simp
next
  case (Suc d)
  from stuck_kids[OF Suc.prems] obtain c where c: "kids st = [Inr c]" "stuckState c" by blast
  from Suc.prems have "\<not> isPyramidEmpty (Pyramid st)" using stuck_not_empty by (simp add: stuckState_def)
  then have "solveStateNoPrune (Suc d) st = exploreNoPrune d [Inr c] (leafResult st)"
    by (simp add: solveStateNoPrune_Suc c(1))
  also have "\<dots> = None" using Suc.IH[OF c(2)] by (simp add: exploreNoPrune_Inr)
  finally show ?case .
qed

lemma stuck_initial_state:
  "stuckState \<lparr>Pyramid = stuckPyramid, Deck = stuckDeck, Waste = [], Moves = []\<rparr>"
proof -
  have "''6c'' \<in> set stuckDeck" by (simp add: stuckDeck_def)
  moreover have "getCardValue ''6c'' \<noteq> Inr 13"
    by (simp add: getCardValue_def hasPrefix_def toLowerChar_def)
  ultimately show ?thesis unfolding stuckState_def by auto
qed

lemma stuck_never_returns: "solveNoPrune depth stuckDeal = None"
  using stuck_loops[OF stuck_initial_state] by (simp add: solveNoPrune_def stuck_initial)

lemma stuck_reaches: "reaches s t \<Longrightarrow> stuckState s \<Longrightarrow> stuckState t"
proof (induction rule: reaches.induct)
  case (here s)
  then show ?case .
next
  case (step c s t)
  from stuck_kids[OF step.prems] obtain c' where "kids s = [Inr c']" "stuckState c'" by blast
  with step.hyps(1) have "stuckState c" by simp
  then show ?case by (rule step.IH)
qed

lemma stuckPyramid_count: "countRemoved stuckPyramid = 0"
  by (simp add: countRemoved_def stuckPyramid_def)

theorem pruning_keeps_count_witness:
  "(\<exists>depth res initial.
      initialState stuckDeal = Inr initial
      \<and> solvePyramidSolitaire depth stuckDeal = Some (Inr res) \<and> RemovedCount res = 0
      \<and> (\<forall>t. reaches initial t \<longrightarrow> countRemoved (Pyramid t) \<le> 0))
   \<and> (\<exists>depth res res'.
      solvePyramidSolitaire depth greedyDeal = Some (Inr res) \<and> RemovedCount res = 28
      \<and> solveNoPrune 23 greedyDeal = Some (Inr res') \<and> RemovedCount res' = 28)"
proof -
  from pruning_keeps_count[OF stuckDeal_valid] obtain depth res initial t where
    s: "initialState stuckDeal = Inr initial"
      "solvePyramidSolitaire depth stuckDeal = Some (Inr res)"
      "reaches initial t" "countRemoved (Pyramid t) = RemovedCount res"
      "\<forall>t. reaches initial t \<longrightarrow> countRemoved (Pyramid t) \<le> RemovedCount res"
    by blast
  from s(1) have "stuckState initial" using stuck_initial stuck_initial_state by simp
  from stuck_reaches[OF s(3) this] have "Pyramid t = stuckPyramid" by (simp add: stuckState_def)
  with s(4) have z: "RemovedCount res = 0" by (simp add: stuckPyramid_count)
  from s(1,2,5) z have 1: "\<exists>depth res initial.
      initialState stuckDeal = Inr initial
      \<and> solvePyramidSolitaire depth stuckDeal = Some (Inr res) \<and> RemovedCount res = 0
      \<and> (\<forall>t. reaches initial t \<longrightarrow> countRemoved (Pyramid t) \<le> 0)"
    by auto
  from greedy_run obtain r0 where r0: "solveNoPrune 23 greedyDeal = Some (Inr r0)" "RemovedCount r0 = 28"
    by (auto split: option.splits sum.splits)
  from pruning_keeps_count[OF greedyDeal_valid] obtain depth2 res2 where
    g: "solvePyramidSolitaire depth2 greedyDeal = Some (Inr res2)"
      "\<forall>depth' r. solveNoPrune depth' greedyDeal = Some r \<longrightarrow>
          (\<exists>res'. r = Inr res' \<and> RemovedCount res' = 28 \<and> RemovedCount res2 = 28)"
    by blast
  from g(2) r0(1) have "RemovedCount res2 = 28" by blast
  with g(1) r0 have 2: "\<exists>depth res res'.
      solvePyramidSolitaire depth greedyDeal = Some (Inr res) \<and> RemovedCount res = 28
      \<and> solveNoPrune 23 greedyDeal = Some (Inr res') \<and> RemovedCount res' = 28"
    by blast
  from 1 2 show ?thesis by (rule conjI)
qed

text \<open>
  The claim as the specification words it fails: with the check removed the search
  returns no count at all on the deal above. No card of its pyramid can be removed, so
  every state has one child, a draw or a recycle, and the recursion never ends; the
  search with the check returns.
\<close>

theorem unpruned_search_loops_counterexample:
  "checkDeck toLower stuckDeal = None \<and> (\<forall>depth. solveNoPrune depth stuckDeal = None)
   \<and> (\<exists>depth res. solvePyramidSolitaire depth stuckDeal = Some (Inr res))"
  using stuckDeal_valid stuck_never_returns solve_valid[OF stuckDeal_valid] by blast

end
